theory Spec2Isabelle
  imports Main "HOL-Library.Product_Lexorder" "HOL-Library.List_Lexorder" "HOL-Library.Char_ord"
begin

section \<open>Data model of \<open>task_3.py\<close>\<close>

text \<open>
  A distance is a Python \<open>int\<close> or \<open>float('infinity')\<close>. Edge weights are
  Python integers (unbounded), so every tentative distance that the loop computes is an
  \<open>int\<close>; only the initial table holds the infinite value.
\<close>

datatype dist = Fin int | Infinity

text \<open>The comparison \<open>new_distance < distances[neighbor]\<close> of an integer with a table entry.\<close>

fun dist_less :: "int \<Rightarrow> dist \<Rightarrow> bool" where
  "dist_less n (Fin m) = (n < m)"
| "dist_less n Infinity = True"

text \<open>The order on table entries: every integer is below the infinite value.\<close>

fun dist_le :: "dist \<Rightarrow> dist \<Rightarrow> bool" where
  "dist_le (Fin a) (Fin b) = (a \<le> b)"
| "dist_le _ Infinity = True"
| "dist_le Infinity (Fin b) = False"

text \<open>
  The exceptions. \<open>KeyError k\<close> is what a dictionary lookup raises on the missing key
  \<open>k\<close>, \<open>IndexError\<close> is what \<open>heapq.heappop\<close> raises on an empty list.
  \<open>VertexNotFound\<close> is the error kind that the specification names; no statement of
  the source raises it.
\<close>

datatype 'v error = KeyError 'v | IndexError | VertexNotFound

text \<open>
  A dictionary whose iteration order matters is an association list in insertion order:
  the graph maps a vertex to its adjacency dictionary, which maps a neighbour to a weight.
  \<open>graph[v]\<close> is \<open>map_of g v\<close>. A Python dictionary has each key once; nothing below
  needs that of the lists, so no such condition is assumed.
\<close>

type_synonym 'v adjacency = "('v \<times> int) list"
type_synonym 'v graph = "('v \<times> 'v adjacency) list"

text \<open>
  The objects one call works on: the caller's graph and the three local structures. The heap
  holds pairs \<open>(distance, vertex)\<close>, which Python compares lexicographically.
\<close>

record 'v state =
  graph :: "'v graph"
  distances :: "'v \<rightharpoonup> dist"
  visited :: "'v set"
  priority_queue :: "(int \<times> 'v) list"

section \<open>The priority queue\<close>

text \<open>
  \<open>heapq\<close> is modelled by its contract: \<open>heappush\<close> adds an entry, \<open>heappop\<close>
  removes and returns a least entry of the pair order (entries that compare equal are equal,
  so the popped value is determined), and raises \<open>IndexError\<close> on an empty heap.
\<close>

definition heappush :: "(int \<times> 'v) list \<Rightarrow> int \<times> 'v \<Rightarrow> (int \<times> 'v) list" where
  "heappush q x = x # q"

definition heappop :: "(int \<times> 'v::linorder) list \<Rightarrow> ((int \<times> 'v) \<times> (int \<times> 'v) list) option" where
  "heappop q = (if q = [] then None else Some (min_list q, remove1 (min_list q) q))"

section \<open>\<open>dijkstra_with_heap\<close>\<close>

text \<open>
  The \<open>for neighbor, weight in graph[current_vertex].items()\<close> loop (lines 33 to 42),
  over the remaining items, on the table and the heap. The visited set does not change
  inside this loop. \<open>distances[neighbor]\<close> raises \<open>KeyError\<close> on a neighbour that is
  not in the table.
\<close>

fun relax :: "'v set \<Rightarrow> int \<Rightarrow> 'v adjacency \<Rightarrow> ('v \<rightharpoonup> dist) \<times> (int \<times> 'v) list
    \<Rightarrow> 'v error + (('v \<rightharpoonup> dist) \<times> (int \<times> 'v) list)" where
  "relax vis current_distance [] (d, q) = Inr (d, q)"
| "relax vis current_distance ((neighbor, weight) # items) (d, q) =
     (if neighbor \<in> vis then relax vis current_distance items (d, q)
      else (let new_distance = current_distance + weight in
        case d neighbor of
          None \<Rightarrow> Inl (KeyError neighbor)
        | Some old \<Rightarrow>
            if dist_less new_distance old
            then relax vis current_distance items
                   (d(neighbor \<mapsto> Fin new_distance), heappush q (new_distance, neighbor))
            else relax vis current_distance items (d, q)))"

text \<open>One iteration of the \<open>while\<close> loop (lines 26 to 42).\<close>

definition loop_body :: "('v::linorder) state \<Rightarrow> 'v error + 'v state" where
  "loop_body st =
     (case heappop (priority_queue st) of
        None \<Rightarrow> Inl IndexError
      | Some ((current_distance, current_vertex), q) \<Rightarrow>
          if current_vertex \<in> visited st then Inr (st\<lparr>priority_queue := q\<rparr>)
          else (let vis = insert current_vertex (visited st) in
            case map_of (graph st) current_vertex of
              None \<Rightarrow> Inl (KeyError current_vertex)
            | Some items \<Rightarrow>
                (case relax vis current_distance items (distances st, q) of
                   Inl e \<Rightarrow> Inl e
                 | Inr (d, q') \<Rightarrow>
                     Inr (st\<lparr>distances := d, visited := vis, priority_queue := q'\<rparr>))))"

text \<open>
  The measure of the loop: the heap entries still to pop, and the adjacency items of the
  vertices not visited yet, each of which can push one entry.
\<close>

definition pending :: "'v graph \<Rightarrow> 'v set \<Rightarrow> nat" where
  "pending g vis = sum_list (map (\<lambda>(v, items). if v \<in> vis then 0 else length items) g)"

definition loop_measure :: "'v state \<Rightarrow> nat" where
  "loop_measure st = length (priority_queue st) + pending (graph st) (visited st)"

lemma relax_length:
  "relax vis cd items (d, q) = Inr (d', q') \<Longrightarrow> length q' \<le> length q + length items"
proof (induction items arbitrary: d q)
  case Nil
  then show ?case by simp
next
  case (Cons it items)
  obtain nb w where it: "it = (nb, w)" by (cases it)
  from Cons.prems show ?case
    unfolding it
    by (auto simp: Let_def heappush_def split: if_splits option.splits dest!: Cons.IH)
qed

lemma pending_insert_le: "pending g (insert v vis) \<le> pending g vis"
  unfolding pending_def by (induction g) auto

lemma pending_visit:
  "(v, items) \<in> set g \<Longrightarrow> v \<notin> vis \<Longrightarrow> pending g (insert v vis) + length items \<le> pending g vis"
proof (induction g)
  case Nil
  then show ?case by simp
next
  case (Cons e g)
  show ?case
  proof (cases "e = (v, items)")
    case True
    have "pending g (insert v vis) \<le> pending g vis" by (rule pending_insert_le)
    with True Cons.prems(2) show ?thesis by (simp add: pending_def)
  next
    case False
    with Cons.prems have "(v, items) \<in> set g" by simp
    from Cons.IH [OF this Cons.prems(2)] show ?thesis
      by (auto simp: pending_def split: prod.splits)
  qed
qed

lemma min_list_mem: "q \<noteq> [] \<Longrightarrow> min_list q \<in> set (q :: 'a::linorder list)"
  by (simp add: min_list_Min)

lemma min_list_least: "x \<in> set q \<Longrightarrow> min_list q \<le> (x :: 'a::linorder)"
  by (cases "q = []") (simp_all add: min_list_Min)

lemma heappop_length: "heappop q = Some (x, q') \<Longrightarrow> Suc (length q') = length q"
  using min_list_mem [of q]
  by (cases "q = []") (auto simp: heappop_def length_remove1 simp del: min_list.simps)

lemma loop_body_measure:
  assumes "loop_body st = Inr st'"
  shows "loop_measure st' < loop_measure st"
proof -
  from assms obtain cd cv q where pop: "heappop (priority_queue st) = Some ((cd, cv), q)"
    by (auto simp: loop_body_def split: option.splits)
  from heappop_length [OF pop] have len: "Suc (length q) = length (priority_queue st)" .
  show ?thesis
  proof (cases "cv \<in> visited st")
    case True
    with assms pop have "st' = st\<lparr>priority_queue := q\<rparr>" by (simp add: loop_body_def)
    with len show ?thesis by (simp add: loop_measure_def)
  next
    case False
    with assms pop obtain items d q' where
      items: "map_of (graph st) cv = Some items" and
      rel: "relax (insert cv (visited st)) cd items (distances st, q) = Inr (d, q')" and
      st': "st' = st\<lparr>distances := d, visited := insert cv (visited st), priority_queue := q'\<rparr>"
      by (auto simp: loop_body_def Let_def split: option.splits sum.splits)
    from items have "(cv, items) \<in> set (graph st)" by (rule map_of_SomeD)
    from pending_visit [OF this False] relax_length [OF rel] len show ?thesis
      by (simp add: loop_measure_def st')
  qed
qed

text \<open>The \<open>while priority_queue:\<close> loop (lines 25 to 42).\<close>

function while_loop :: "('v::linorder) state \<Rightarrow> 'v error + 'v state" where
  "while_loop st =
     (if priority_queue st = [] then Inr st
      else case loop_body st of Inl e \<Rightarrow> Inl e | Inr st' \<Rightarrow> while_loop st')"
  by pat_completeness auto
termination
  by (relation "measure loop_measure") (auto simp: loop_body_measure)

declare while_loop.simps [simp del]

text \<open>
  Lines 17 to 23: the table over the keys of the graph, in which \<open>distances[start] = 0\<close>
  overwrites the entry of the start vertex or adds one for it, the heap with its seed entry,
  and the empty visited set.
\<close>

definition initial_state :: "'v graph \<Rightarrow> 'v \<Rightarrow> 'v state" where
  "initial_state g start =
     \<lparr>graph = g,
      distances = (map_of (map (\<lambda>(vertex, items). (vertex, Infinity)) g))(start \<mapsto> Fin 0),
      visited = {},
      priority_queue = [(0, start)]\<rparr>"

text \<open>
  The call: \<open>dijkstra_run\<close> is the run with the final state of all its objects,
  \<open>dijkstra_with_heap\<close> returns the table of that state (line 44).
\<close>

definition dijkstra_run :: "('v::linorder) graph \<Rightarrow> 'v \<Rightarrow> 'v error + 'v state" where
  "dijkstra_run g start = while_loop (initial_state g start)"

definition dijkstra_with_heap :: "('v::linorder) graph \<Rightarrow> 'v \<Rightarrow> 'v error + ('v \<rightharpoonup> dist)" where
  "dijkstra_with_heap g start =
     (case dijkstra_run g start of Inl e \<Rightarrow> Inl e | Inr st \<Rightarrow> Inr (distances st))"

section \<open>Graphs, paths and runs\<close>

text \<open>
  The keys of the graph, and its directed edges: \<open>edge g u v w\<close> says that
  \<open>graph[u]\<close> exists and has the item \<open>(v, w)\<close>.
\<close>

definition vertices :: "'v graph \<Rightarrow> 'v set" where
  "vertices g = fst ` set g"

definition edge :: "'v graph \<Rightarrow> 'v \<Rightarrow> 'v \<Rightarrow> int \<Rightarrow> bool" where
  "edge g u v w = (case map_of g u of None \<Rightarrow> False | Some items \<Rightarrow> (v, w) \<in> set items)"

text \<open>The two conditions on a graph: every neighbour is a key, and no weight is negative.\<close>

definition neighbors_are_keys :: "'v graph \<Rightarrow> bool" where
  "neighbors_are_keys g = (\<forall>(u, items) \<in> set g. \<forall>(v, w) \<in> set items. v \<in> vertices g)"

definition nonneg_weights :: "'v graph \<Rightarrow> bool" where
  "nonneg_weights g = (\<forall>(u, items) \<in> set g. \<forall>(v, w) \<in> set items. 0 \<le> w)"

text \<open>
  A directed path from \<open>u\<close> to \<open>v\<close> is a list of edges \<open>(x, y, w)\<close>, each starting
  where the one before ends; the empty list is the path from a vertex to itself. Its weight is
  the sum of the weights of its edges. \<open>is_shortest g s v d\<close> says that \<open>d\<close> is the least
  weight of a path from \<open>s\<close> to \<open>v\<close>.
\<close>

fun is_path :: "'v graph \<Rightarrow> 'v \<Rightarrow> ('v \<times> 'v \<times> int) list \<Rightarrow> 'v \<Rightarrow> bool" where
  "is_path g u [] v = (u = v)"
| "is_path g u ((x, y, w) # p) v = (x = u \<and> edge g x y w \<and> is_path g y p v)"

definition weight :: "('v \<times> 'v \<times> int) list \<Rightarrow> int" where
  "weight p = sum_list (map (\<lambda>(x, y, w). w) p)"

definition is_shortest :: "'v graph \<Rightarrow> 'v \<Rightarrow> 'v \<Rightarrow> int \<Rightarrow> bool" where
  "is_shortest g s v d =
     ((\<exists>p. is_path g s p v \<and> weight p = d) \<and> (\<forall>p. is_path g s p v \<longrightarrow> d \<le> weight p))"

text \<open>
  The state after \<open>n\<close> iterations of the loop; \<open>None\<close> when the loop has ended or has
  raised before.
\<close>

fun iterate :: "nat \<Rightarrow> ('v::linorder) state \<Rightarrow> 'v state option" where
  "iterate 0 st = Some st"
| "iterate (Suc n) st =
     (if priority_queue st = [] then None
      else case loop_body st of Inl e \<Rightarrow> None | Inr st' \<Rightarrow> iterate n st')"

subsection \<open>Observations of a run\<close>

text \<open>The next iteration from a state adds the vertex to the visited set.\<close>

definition enters :: "('v::linorder) \<Rightarrow> 'v state \<Rightarrow> bool" where
  "enters v a =
     (priority_queue a \<noteq> [] \<and>
      (case loop_body a of Inl e \<Rightarrow> False | Inr b \<Rightarrow> v \<notin> visited a \<and> v \<in> visited b))"

text \<open>The vertices for which \<open>visited.add\<close> runs in the first \<open>n\<close> iterations, in order.\<close>

fun visit_order :: "nat \<Rightarrow> ('v::linorder) state \<Rightarrow> 'v list" where
  "visit_order 0 st = []"
| "visit_order (Suc n) st =
     (case heappop (priority_queue st) of
        None \<Rightarrow> []
      | Some ((cd, cv), q) \<Rightarrow>
          (case loop_body st of
             Inl e \<Rightarrow> []
           | Inr st' \<Rightarrow> (if cv \<in> visited st then [] else [cv]) @ visit_order n st'))"

text \<open>The number of adjacency items of the graph, its directed edges.\<close>

definition edge_count :: "'v graph \<Rightarrow> nat" where
  "edge_count g = sum_list (map (\<lambda>(v, items). length items) g)"

subsection \<open>Increasing the weight of an edge\<close>

text \<open>The graph after \<open>graph[u][v] += k\<close>.\<close>

definition increase_weight :: "'v \<Rightarrow> 'v \<Rightarrow> int \<Rightarrow> 'v graph \<Rightarrow> 'v graph" where
  "increase_weight u v k g =
     map (\<lambda>(x, items).
            (x, if x = u then map (\<lambda>(y, w). (y, if y = v then w + k else w)) items else items)) g"

subsection \<open>Invariants of the loop\<close>

text \<open>
  The invariant that holds whatever the weights are, for the graph \<open>g\<close> and the start vertex
  \<open>s\<close> of the call: the table is over the keys and the start vertex, the start vertex is at 0
  and is visited after the first iteration, every heap entry is at least the table entry of
  its vertex, a vertex with an integer entry is visited or in the heap, and the neighbours of
  a visited vertex have integer entries.
\<close>

definition table_inv :: "('v::linorder) graph \<Rightarrow> 'v \<Rightarrow> 'v state \<Rightarrow> bool" where
  "table_inv g s st =
     (graph st = g \<and>
      dom (distances st) = insert s (vertices g) \<and>
      distances st s = Some (Fin 0) \<and>
      (s \<in> visited st \<or> priority_queue st = [(0, s)]) \<and>
      (\<forall>k v. (k, v) \<in> set (priority_queue st) \<longrightarrow> (\<exists>k'\<le>k. distances st v = Some (Fin k'))) \<and>
      (\<forall>v \<in> visited st. \<exists>k. distances st v = Some (Fin k)) \<and>
      (\<forall>v k. distances st v = Some (Fin k) \<longrightarrow>
         v \<in> visited st \<or> (\<exists>k'. (k', v) \<in> set (priority_queue st))) \<and>
      (\<forall>u \<in> visited st. \<forall>v w. edge g u v w \<longrightarrow> (\<exists>k. distances st v = Some (Fin k))))"

text \<open>
  The invariant for non-negative weights: every integer entry is the weight of a path from
  the start vertex, the entry of a visited vertex is at most the weight of every such path,
  an unvisited vertex with an integer entry has that entry in the heap, and every edge out of
  a visited vertex is relaxed.
\<close>

definition sp_inv :: "('v::linorder) graph \<Rightarrow> 'v \<Rightarrow> 'v state \<Rightarrow> bool" where
  "sp_inv g s st =
     ((\<forall>v k. distances st v = Some (Fin k) \<longrightarrow> (\<exists>p. is_path g s p v \<and> weight p = k)) \<and>
      (\<forall>v k p. v \<in> visited st \<and> distances st v = Some (Fin k) \<and> is_path g s p v \<longrightarrow> k \<le> weight p) \<and>
      (\<forall>v k. v \<notin> visited st \<and> distances st v = Some (Fin k) \<longrightarrow> (k, v) \<in> set (priority_queue st)) \<and>
      (\<forall>u k v w. u \<in> visited st \<and> distances st u = Some (Fin k) \<and> edge g u v w \<longrightarrow>
         (\<exists>k'\<le>k + w. distances st v = Some (Fin k'))))"

subsection \<open>Sample graphs\<close>

text \<open>\<open>create_sample_graph\<close> (lines 47 to 60).\<close>

definition create_sample_graph :: "string graph" where
  "create_sample_graph = [(''A'', [(''B'', 5), (''C'', 10)]), (''B'', [(''A'', 5), (''D'', 3)]),
     (''C'', [(''A'', 10), (''D'', 2)]), (''D'', [(''B'', 3), (''C'', 2), (''E'', 4)]),
     (''E'', [(''D'', 4)])]"

text \<open>
  A graph with negative weights, a graph with an unreachable vertex, a graph in which a
  vertex on a path from \<open>A\<close> has the neighbours \<open>X\<close> and \<open>Y\<close> that are not keys, and a
  graph whose only neighbour that is not a key belongs to a vertex that no path reaches.
\<close>

definition detour_graph :: "string graph" where
  "detour_graph = [(''A'', [(''A'', - 3), (''B'', 2), (''C'', 5)]), (''B'', []), (''C'', [(''B'', - 4)])]"

definition lonely_graph :: "string graph" where
  "lonely_graph = [(''A'', [(''B'', 1)]), (''B'', []), (''C'', [])]"

definition dangling_graph :: "string graph" where
  "dangling_graph =
     [(''A'', [(''B'', 1)]), (''B'', [(''A'', 7), (''C'', 3), (''X'', 2), (''Y'', 1)]), (''C'', [])]"

definition stray_graph :: "string graph" where
  "stray_graph = [(''A'', []), (''B'', [(''X'', 1)])]"

section \<open>Properties\<close>

subsection \<open>Paths\<close>

lemma edge_mem: "edge g u v w \<Longrightarrow> \<exists>items. (u, items) \<in> set g \<and> (v, w) \<in> set items"
  by (auto simp: edge_def split: option.splits dest: map_of_SomeD)

lemma edge_nonneg: "nonneg_weights g \<Longrightarrow> edge g u v w \<Longrightarrow> 0 \<le> w"
  by (fastforce simp: nonneg_weights_def dest: edge_mem)

lemma edge_key: "neighbors_are_keys g \<Longrightarrow> edge g u v w \<Longrightarrow> v \<in> vertices g"
  by (fastforce simp: neighbors_are_keys_def dest: edge_mem)

lemma map_of_vertices: "(map_of g v = None) = (v \<notin> vertices g)"
  by (simp add: vertices_def map_of_eq_None_iff)

lemma is_path_snoc:
  "is_path g u (p @ [(x, y, w)]) v = (is_path g u p x \<and> edge g x y w \<and> y = v)"
  by (induction p arbitrary: u) auto

lemma weight_simps [simp]:
  "weight [] = 0" "weight ((x, y, w) # p) = w + weight p" "weight (p @ [(x, y, w)]) = weight p + w"
  by (simp_all add: weight_def)

subsection \<open>The heap\<close>

lemma heappop_Some:
  assumes "heappop q = Some (x, q')"
  shows "x \<in> set q" and "\<And>e. e \<in> set q \<Longrightarrow> x \<le> e" and "set q' \<subseteq> set q"
    and "\<And>e. e \<in> set q \<Longrightarrow> e \<noteq> x \<Longrightarrow> e \<in> set q'"
proof -
  from assms have ne: "q \<noteq> []" and x: "x = min_list q" and q': "q' = remove1 x q"
    by (auto simp: heappop_def split: if_splits)
  show "x \<in> set q" using ne x by (simp add: min_list_mem del: min_list.simps)
  show "\<And>e. e \<in> set q \<Longrightarrow> x \<le> e" unfolding x by (rule min_list_least)
  show "set q' \<subseteq> set q" unfolding q' by (rule set_remove1_subset)
  show "\<And>e. e \<in> set q \<Longrightarrow> e \<noteq> x \<Longrightarrow> e \<in> set q'" unfolding q' by simp
qed

lemma heappop_None: "(heappop q = None) = (q = [])"
  by (simp add: heappop_def)

lemma heappop_single: "heappop [x] = Some (x, [])"
  by (simp add: heappop_def)

subsection \<open>The inner loop\<close>

lemma relax_Cons_cases:
  assumes "relax vis cd ((nb, w) # items) (d, q) = Inr (d', q')"
  obtains (skip) "relax vis cd items (d, q) = Inr (d', q')"
      and "nb \<in> vis \<or> (\<exists>old. d nb = Some old \<and> \<not> dist_less (cd + w) old)"
  | (update) old where "nb \<notin> vis" and "d nb = Some old" and "dist_less (cd + w) old"
      and "relax vis cd items (d(nb \<mapsto> Fin (cd + w)), (cd + w, nb) # q) = Inr (d', q')"
  using assms by (auto simp: Let_def heappush_def split: if_splits option.splits)

lemma relax_dom: "relax vis cd items (d, q) = Inr (d', q') \<Longrightarrow> dom d' = dom d"
proof (induction items arbitrary: d q)
  case Nil
  then show ?case by simp
next
  case (Cons it items)
  obtain nb w where it: "it = (nb, w)" by (cases it)
  from Cons.prems [unfolded it] show ?case
  proof (cases rule: relax_Cons_cases)
    case skip
    then show ?thesis by (simp add: Cons.IH)
  next
    case (update old)
    from update(2) have nb: "nb \<in> dom d" by (rule domI)
    have "dom d' = dom (d(nb \<mapsto> Fin (cd + w)))" by (rule Cons.IH [OF update(4)])
    also from nb have "\<dots> = dom d" by (simp add: insert_absorb)
    finally show ?thesis .
  qed
qed

lemma relax_visited: "relax vis cd items (d, q) = Inr (d', q') \<Longrightarrow> v \<in> vis \<Longrightarrow> d' v = d v"
proof (induction items arbitrary: d q)
  case Nil
  then show ?case by simp
next
  case (Cons it items)
  obtain nb w where it: "it = (nb, w)" by (cases it)
  from Cons.prems(1) [unfolded it] show ?case
  proof (cases rule: relax_Cons_cases)
    case skip
    then show ?thesis by (simp add: Cons.IH Cons.prems(2))
  next
    case (update old)
    from Cons.IH [OF update(4) Cons.prems(2)] update(1) Cons.prems(2) show ?thesis by auto
  qed
qed

lemma relax_suffix:
  "relax vis cd items (d, q) = Inr (d', q') \<Longrightarrow>
   \<exists>pushed. q' = pushed @ q \<and> length pushed \<le> length items"
proof (induction items arbitrary: d q)
  case Nil
  then show ?case by simp
next
  case (Cons it items)
  obtain nb w where it: "it = (nb, w)" by (cases it)
  from Cons.prems [unfolded it] show ?case
  proof (cases rule: relax_Cons_cases)
    case skip
    from Cons.IH [OF skip(1)] show ?thesis by auto
  next
    case (update old)
    from Cons.IH [OF update(4)] obtain pushed where
      "q' = pushed @ (cd + w, nb) # q" "length pushed \<le> length items" by blast
    then have "q' = (pushed @ [(cd + w, nb)]) @ q \<and> length (pushed @ [(cd + w, nb)]) \<le> length (it # items)"
      by simp
    then show ?thesis by blast
  qed
qed

lemma relax_queue_mono: "relax vis cd items (d, q) = Inr (d', q') \<Longrightarrow> set q \<subseteq> set q'"
  by (auto dest: relax_suffix)

lemma relax_decreases:
  "relax vis cd items (d, q) = Inr (d', q') \<Longrightarrow> d v = Some (Fin k) \<Longrightarrow>
   \<exists>k'\<le>k. d' v = Some (Fin k')"
proof (induction items arbitrary: d q k)
  case Nil
  then show ?case by simp
next
  case (Cons it items)
  obtain nb w where it: "it = (nb, w)" by (cases it)
  from Cons.prems(1) [unfolded it] show ?case
  proof (cases rule: relax_Cons_cases)
    case skip
    from Cons.IH [OF skip(1) Cons.prems(2)] show ?thesis .
  next
    case (update old)
    show ?thesis
    proof (cases "v = nb")
      case True
      with update Cons.prems(2) have "cd + w < k" by simp
      moreover from Cons.IH [OF update(4), of "cd + w"] True
      obtain k' where "k' \<le> cd + w" "d' v = Some (Fin k')" by auto
      ultimately show ?thesis by auto
    next
      case False
      with Cons.IH [OF update(4), of k] Cons.prems(2) show ?thesis by simp
    qed
  qed
qed

text \<open>Every entry of the new table is the old one, or was set through an item and pushed.\<close>

lemma relax_changed:
  "relax vis cd items (d, q) = Inr (d', q') \<Longrightarrow>
   d' v = d v \<or> (\<exists>w. (v, w) \<in> set items \<and> v \<notin> vis \<and> d' v = Some (Fin (cd + w)) \<and> (cd + w, v) \<in> set q')"
proof (induction items arbitrary: d q)
  case Nil
  then show ?case by simp
next
  case (Cons it items)
  obtain nb w where it: "it = (nb, w)" by (cases it)
  from Cons.prems(1) [unfolded it] show ?case
  proof (cases rule: relax_Cons_cases)
    case skip
    from Cons.IH [OF skip(1)] show ?thesis by auto
  next
    case (update old)
    from relax_queue_mono [OF update(4)] have pushed: "(cd + w, nb) \<in> set q'" by auto
    from Cons.IH [OF update(4)] update(1) pushed show ?thesis
      by (cases "v = nb") (auto simp: it)
  qed
qed

text \<open>After the loop, every item to a vertex outside the visited set is relaxed.\<close>

lemma relax_relaxed:
  "relax vis cd items (d, q) = Inr (d', q') \<Longrightarrow> (v, w) \<in> set items \<Longrightarrow> v \<notin> vis \<Longrightarrow>
   \<exists>k\<le>cd + w. d' v = Some (Fin k)"
proof (induction items arbitrary: d q)
  case Nil
  then show ?case by simp
next
  case (Cons it items)
  obtain nb c where it: "it = (nb, c)" by (cases it)
  show ?case
  proof (cases "(v, w) \<in> set items")
    case True
    from Cons.prems(1) [unfolded it] show ?thesis
    proof (cases rule: relax_Cons_cases)
      case skip
      from Cons.IH [OF skip(1) True Cons.prems(3)] show ?thesis .
    next
      case (update old)
      from Cons.IH [OF update(4) True Cons.prems(3)] show ?thesis .
    qed
  next
    case False
    with Cons.prems(2) have eq: "nb = v" "c = w" by (auto simp: it)
    from Cons.prems(1) [unfolded it] show ?thesis
    proof (cases rule: relax_Cons_cases)
      case skip
      with Cons.prems(3) eq obtain old where old: "d v = Some old" "\<not> dist_less (cd + w) old"
        by auto
      then obtain k where "old = Fin k" "k \<le> cd + w" by (cases old) auto
      with old relax_decreases [OF skip(1), of v k] show ?thesis by auto
    next
      case (update old)
      from relax_decreases [OF update(4), of v "cd + w"] eq show ?thesis by auto
    qed
  qed
qed

text \<open>Every heap entry is an old one, or one pushed for a vertex outside the visited set.\<close>

lemma relax_pushed:
  "relax vis cd items (d, q) = Inr (d', q') \<Longrightarrow> (k, v) \<in> set q' \<Longrightarrow>
   (k, v) \<in> set q \<or> (v \<notin> vis \<and> (\<exists>k'\<le>k. d' v = Some (Fin k')))"
proof (induction items arbitrary: d q)
  case Nil
  then show ?case by simp
next
  case (Cons it items)
  obtain nb w where it: "it = (nb, w)" by (cases it)
  from Cons.prems(1) [unfolded it] show ?case
  proof (cases rule: relax_Cons_cases)
    case skip
    from Cons.IH [OF skip(1) Cons.prems(2)] show ?thesis .
  next
    case (update old)
    from Cons.IH [OF update(4) Cons.prems(2)]
    show ?thesis
    proof
      assume "(k, v) \<in> set ((cd + w, nb) # q)"
      then show ?thesis
        using relax_decreases [OF update(4), of nb "cd + w"] update(1) by auto
    next
      assume "v \<notin> vis \<and> (\<exists>k'\<le>k. d' v = Some (Fin k'))"
      then show ?thesis by simp
    qed
  qed
qed

text \<open>The inner loop raises only for a neighbour that the table does not hold.\<close>

lemma relax_error:
  "relax vis cd items (d, q) = Inl e \<Longrightarrow>
   \<exists>nb w. e = KeyError nb \<and> (nb, w) \<in> set items \<and> nb \<notin> vis \<and> nb \<notin> dom d"
proof (induction items arbitrary: d q)
  case Nil
  then show ?case by simp
next
  case (Cons it items)
  obtain nb w where it: "it = (nb, w)" by (cases it)
  show ?case
  proof (cases "nb \<notin> vis \<and> d nb = None")
    case True
    with Cons.prems show ?thesis by (auto simp: it)
  next
    case False
    then consider "relax vis cd items (d, q) = Inl e"
      | old where "d nb = Some old" "relax vis cd items (d(nb \<mapsto> Fin (cd + w)), heappush q (cd + w, nb)) = Inl e"
      using Cons.prems by (auto simp: it Let_def split: if_splits option.splits)
    then show ?thesis
    proof cases
      case 1
      from Cons.IH [OF 1] show ?thesis by auto
    next
      case 2
      from Cons.IH [OF 2(2)] 2(1) show ?thesis by (auto split: if_splits)
    qed
  qed
qed

subsection \<open>One iteration, and the loop\<close>

lemma loop_body_cases:
  assumes "loop_body st = Inr st'"
  obtains (stale) cd cv q where "heappop (priority_queue st) = Some ((cd, cv), q)"
      and "cv \<in> visited st" and "st' = st\<lparr>priority_queue := q\<rparr>"
  | (visit) cd cv q items d q' where "heappop (priority_queue st) = Some ((cd, cv), q)"
      and "cv \<notin> visited st" and "map_of (graph st) cv = Some items"
      and "relax (insert cv (visited st)) cd items (distances st, q) = Inr (d, q')"
      and "st' = st\<lparr>distances := d, visited := insert cv (visited st), priority_queue := q'\<rparr>"
  using assms
  by (auto simp: loop_body_def Let_def split: option.splits if_splits sum.splits)

lemma loop_body_error_cases:
  assumes "loop_body st = Inl e" and "priority_queue st \<noteq> []"
  obtains (lookup) cd cv q where "heappop (priority_queue st) = Some ((cd, cv), q)"
      and "cv \<notin> visited st" and "map_of (graph st) cv = None" and "e = KeyError cv"
  | (inner) cd cv q items where "heappop (priority_queue st) = Some ((cd, cv), q)"
      and "cv \<notin> visited st" and "map_of (graph st) cv = Some items"
      and "relax (insert cv (visited st)) cd items (distances st, q) = Inl e"
  using assms
  by (auto simp: loop_body_def Let_def heappop_None split: option.splits if_splits sum.splits)

lemma while_loop_invariant:
  assumes "while_loop st = Inr st'" and "I st"
    and step: "\<And>a b. I a \<Longrightarrow> priority_queue a \<noteq> [] \<Longrightarrow> loop_body a = Inr b \<Longrightarrow> I b"
  shows "I st' \<and> priority_queue st' = []"
  using assms(1,2)
proof (induction st rule: while_loop.induct)
  case (1 st)
  show ?case
  proof (cases "priority_queue st = []")
    case True
    with "1.prems" show ?thesis by (simp add: while_loop.simps)
  next
    case False
    with "1.prems"(1) obtain b where b: "loop_body st = Inr b" and w: "while_loop b = Inr st'"
      by (auto simp: while_loop.simps [of st] split: sum.splits)
    from "1.IH" [OF False b w step [OF "1.prems"(2) False b]] show ?thesis .
  qed
qed

lemma while_loop_succeeds:
  assumes "I st"
    and step: "\<And>a b. I a \<Longrightarrow> priority_queue a \<noteq> [] \<Longrightarrow> loop_body a = Inr b \<Longrightarrow> I b"
    and safe: "\<And>a. I a \<Longrightarrow> priority_queue a \<noteq> [] \<Longrightarrow> \<exists>b. loop_body a = Inr b"
  shows "\<exists>st'. while_loop st = Inr st'"
  using assms(1)
proof (induction st rule: while_loop.induct)
  case (1 st)
  show ?case
  proof (cases "priority_queue st = []")
    case True
    then show ?thesis by (simp add: while_loop.simps)
  next
    case False
    from safe [OF "1.prems" False] obtain b where b: "loop_body st = Inr b" ..
    from "1.IH" [OF False b step [OF "1.prems" False b]] False b show ?thesis
      by (simp add: while_loop.simps [of st])
  qed
qed

lemma iterate_invariant:
  assumes "iterate n st = Some st'" and "I st"
    and step: "\<And>a b. I a \<Longrightarrow> priority_queue a \<noteq> [] \<Longrightarrow> loop_body a = Inr b \<Longrightarrow> I b"
  shows "I st'"
  using assms(1,2)
proof (induction n arbitrary: st)
  case 0
  then show ?case by simp
next
  case (Suc n)
  from Suc.prems(1) obtain b where ne: "priority_queue st \<noteq> []"
    and b: "loop_body st = Inr b" and it: "iterate n b = Some st'"
    by (auto split: if_splits sum.splits)
  from Suc.IH [OF it step [OF Suc.prems(2) ne b]] show ?case .
qed

lemma iterate_measure: "iterate n st = Some st' \<Longrightarrow> n + loop_measure st' \<le> loop_measure st"
proof (induction n arbitrary: st)
  case 0
  then show ?case by simp
next
  case (Suc n)
  from Suc.prems obtain b where b: "loop_body st = Inr b" and it: "iterate n b = Some st'"
    by (auto split: if_splits sum.splits)
  from Suc.IH [OF it] loop_body_measure [OF b] show ?case by simp
qed

lemma while_loop_iterate:
  "while_loop st = Inr st' \<Longrightarrow> \<exists>n. iterate n st = Some st'"
proof (induction st rule: while_loop.induct)
  case (1 st)
  show ?case
  proof (cases "priority_queue st = []")
    case True
    with "1.prems" have "iterate 0 st = Some st'" by (simp add: while_loop.simps)
    then show ?thesis ..
  next
    case False
    with "1.prems"(1) obtain b where b: "loop_body st = Inr b" and w: "while_loop b = Inr st'"
      by (auto simp: while_loop.simps [of st] split: sum.splits)
    from "1.IH" [OF False b w] obtain n where "iterate n b = Some st'" ..
    with False b have "iterate (Suc n) st = Some st'" by simp
    then show ?thesis ..
  qed
qed

subsection \<open>The invariant that holds for all weights\<close>

lemma initial_table:
  "map_of (map (\<lambda>(vertex, items). (vertex, Infinity)) g) v =
   (if v \<in> vertices g then Some Infinity else None)"
  by (induction g) (auto simp: vertices_def)

lemma table_inv_initial: "table_inv g s (initial_state g s)"
  by (auto simp: table_inv_def initial_state_def initial_table dom_def split: if_splits)

lemma table_inv_step:
  assumes inv: "table_inv g s st" and body: "loop_body st = Inr st'"
  shows "table_inv g s st'"
proof -
  from inv have g: "graph st = g"
    and dm: "dom (distances st) = insert s (vertices g)"
    and s0: "distances st s = Some (Fin 0)"
    and sv: "s \<in> visited st \<or> priority_queue st = [(0, s)]"
    and qd: "\<And>k v. (k, v) \<in> set (priority_queue st) \<Longrightarrow> \<exists>k'\<le>k. distances st v = Some (Fin k')"
    and vf: "\<And>v. v \<in> visited st \<Longrightarrow> \<exists>k. distances st v = Some (Fin k)"
    and fq: "\<And>v k. distances st v = Some (Fin k) \<Longrightarrow>
               v \<in> visited st \<or> (\<exists>k'. (k', v) \<in> set (priority_queue st))"
    and ve: "\<And>u v w. u \<in> visited st \<Longrightarrow> edge g u v w \<Longrightarrow> \<exists>k. distances st v = Some (Fin k)"
    unfolding table_inv_def by blast+
  from body show ?thesis
  proof (cases rule: loop_body_cases)
    case (stale cd cv q)
    note pop = heappop_Some [OF stale(1)]
    from sv pop(1) stale(2) have sv': "s \<in> visited st" by auto
    have fq': "v \<in> visited st \<or> (\<exists>k'. (k', v) \<in> set q)" if "distances st v = Some (Fin k)" for v k
    proof (cases "v \<in> visited st")
      case True
      then show ?thesis ..
    next
      case False
      with fq [OF that] obtain k' where k': "(k', v) \<in> set (priority_queue st)" by blast
      from False stale(2) have "(k', v) \<noteq> (cd, cv)" by auto
      from pop(4) [OF k' this] show ?thesis by blast
    qed
    from pop(3) qd have qd': "\<And>k v. (k, v) \<in> set q \<Longrightarrow> \<exists>k'\<le>k. distances st v = Some (Fin k')"
      by blast
    show ?thesis
      unfolding table_inv_def stale(3)
      using g dm s0 sv' qd' vf fq' ve by simp
  next
    case (visit cd cv q items d q')
    note pop = heappop_Some [OF visit(1)]
    let ?vis = "insert cv (visited st)"
    note rel = visit(4)
    from sv pop(1) have sv': "s \<in> ?vis" by auto
    have dm': "dom d = insert s (vertices g)"
      using relax_dom [OF rel] dm by simp
    have s0': "d s = Some (Fin 0)"
      using relax_visited [OF rel sv'] s0 by simp
    have qd': "\<exists>k'\<le>k. d v = Some (Fin k')" if "(k, v) \<in> set q'" for k v
      using relax_pushed [OF rel that]
    proof
      assume "(k, v) \<in> set q"
      with pop(3) have "(k, v) \<in> set (priority_queue st)" by blast
      from qd [OF this] obtain k0 where k0: "k0 \<le> k" "distances st v = Some (Fin k0)" by blast
      from relax_decreases [OF rel k0(2)] k0(1) show ?thesis by force
    next
      assume "v \<notin> ?vis \<and> (\<exists>k'\<le>k. d v = Some (Fin k'))"
      then show ?thesis ..
    qed
    have vf': "\<exists>k. d v = Some (Fin k)" if "v \<in> ?vis" for v
    proof -
      from that qd [OF pop(1)] vf obtain k where "distances st v = Some (Fin k)" by blast
      from relax_decreases [OF rel this] show ?thesis by blast
    qed
    have fq': "v \<in> ?vis \<or> (\<exists>k'. (k', v) \<in> set q')" if dv: "d v = Some (Fin k)" for v k
      using relax_changed [OF rel, of v]
    proof
      assume "d v = distances st v"
      with dv fq have "v \<in> visited st \<or> (\<exists>k'. (k', v) \<in> set (priority_queue st))" by simp
      then show ?thesis
      proof
        assume "v \<in> visited st"
        then show ?thesis by simp
      next
        assume "\<exists>k'. (k', v) \<in> set (priority_queue st)"
        then obtain k' where k': "(k', v) \<in> set (priority_queue st)" ..
        show ?thesis
        proof (cases "(k', v) = (cd, cv)")
          case True
          then show ?thesis by simp
        next
          case False
          from pop(4) [OF k' False] relax_queue_mono [OF rel] show ?thesis by blast
        qed
      qed
    next
      assume "\<exists>w. (v, w) \<in> set items \<and> v \<notin> ?vis \<and> d v = Some (Fin (cd + w)) \<and> (cd + w, v) \<in> set q'"
      then show ?thesis by blast
    qed
    have ve': "\<exists>k. d v = Some (Fin k)" if u: "u \<in> ?vis" and e: "edge g u v w" for u v w
    proof (cases "v \<in> ?vis")
      case True
      then show ?thesis by (rule vf')
    next
      case False
      show ?thesis
      proof (cases "u = cv")
        case True
        with e visit(3) g have "(v, w) \<in> set items" by (simp add: edge_def)
        from relax_relaxed [OF rel this False] show ?thesis by blast
      next
        case False
        with u have "u \<in> visited st" by simp
        from ve [OF this e] obtain k where "distances st v = Some (Fin k)" ..
        from relax_decreases [OF rel this] show ?thesis by blast
      qed
    qed
    show ?thesis
      unfolding table_inv_def visit(5)
      using g dm' s0' sv' qd' vf' fq' ve' by simp
  qed
qed

text \<open>With the start vertex and all neighbours among the keys, no lookup fails.\<close>

lemma table_inv_safe:
  assumes inv: "table_inv g s st" and ne: "priority_queue st \<noteq> []"
    and s: "s \<in> vertices g" and nk: "neighbors_are_keys g"
  shows "\<exists>st'. loop_body st = Inr st'"
proof (cases "loop_body st")
  case (Inr st')
  then show ?thesis ..
next
  case (Inl e)
  from inv s have g: "graph st = g" and dm: "dom (distances st) = vertices g"
    and qd: "\<And>k v. (k, v) \<in> set (priority_queue st) \<Longrightarrow> \<exists>k'\<le>k. distances st v = Some (Fin k')"
    unfolding table_inv_def by (blast, simp add: insert_absorb, blast)
  from Inl ne show ?thesis
  proof (cases rule: loop_body_error_cases)
    case (lookup cd cv q)
    from qd [OF heappop_Some(1) [OF lookup(1)]] have "cv \<in> dom (distances st)" by blast
    with dm lookup(3) g show ?thesis by (simp add: map_of_vertices)
  next
    case (inner cd cv q items)
    from relax_error [OF inner(4)] obtain nb w where
      nb: "(nb, w) \<in> set items" "nb \<notin> dom (distances st)" by blast
    from inner(3) g have "edge g cv nb w" using nb(1) by (simp add: edge_def)
    from edge_key [OF nk this] nb(2) dm show ?thesis by simp
  qed
qed

lemma dijkstra_run_succeeds:
  assumes "s \<in> vertices g" and "neighbors_are_keys g"
  shows "\<exists>st. dijkstra_run g s = Inr st"
  unfolding dijkstra_run_def
  by (rule while_loop_succeeds [where I = "table_inv g s"])
    (auto intro: table_inv_initial table_inv_step table_inv_safe assms)

lemma dijkstra_run_table_inv:
  assumes "dijkstra_run g s = Inr st"
  shows "table_inv g s st" and "priority_queue st = []"
proof -
  from assms have "while_loop (initial_state g s) = Inr st" by (simp add: dijkstra_run_def)
  then have "table_inv g s st \<and> priority_queue st = []"
    by (rule while_loop_invariant) (auto intro: table_inv_initial table_inv_step)
  then show "table_inv g s st" and "priority_queue st = []" by simp_all
qed

lemma loop_body_graph: "loop_body st = Inr st' \<Longrightarrow> graph st' = graph st"
  by (erule loop_body_cases) simp_all

lemma iterate_graph: "iterate n st = Some st' \<Longrightarrow> graph st' = graph st"
proof (induction n arbitrary: st)
  case 0
  then show ?case by simp
next
  case (Suc n)
  from Suc.prems obtain b where b: "loop_body st = Inr b" and it: "iterate n b = Some st'"
    by (auto split: if_splits sum.splits)
  from Suc.IH [OF it] loop_body_graph [OF b] show ?case by simp
qed

lemma while_loop_graph: "while_loop st = Inr st' \<Longrightarrow> graph st' = graph st"
  by (auto dest: while_loop_iterate iterate_graph)

lemma start_not_key:
  assumes "start \<notin> vertices g"
  shows "dijkstra_run g start = Inl (KeyError start)"
proof -
  from assms have "map_of g start = None" by (simp add: map_of_vertices)
  then have "loop_body (initial_state g start) = Inl (KeyError start)"
    by (simp add: loop_body_def initial_state_def heappop_single Let_def)
  moreover have "priority_queue (initial_state g start) \<noteq> []" by (simp add: initial_state_def)
  ultimately show ?thesis
    by (simp add: dijkstra_run_def while_loop.simps [of "initial_state g start"])
qed

text \<open>
  Claim C2: for every graph whose neighbours are all keys and every start vertex that is a key,
  the call returns a table, and the table maps the start vertex to 0; the edge weights may be
  negative.
\<close>

theorem start_distance_zero:
  assumes "start \<in> vertices g" and "neighbors_are_keys g"
  shows "\<exists>t. dijkstra_with_heap g start = Inr t \<and> t start = Some (Fin 0)"
proof -
  from dijkstra_run_succeeds [OF assms] obtain st where st: "dijkstra_run g start = Inr st" ..
  from dijkstra_run_table_inv(1) [OF st] have "distances st start = Some (Fin 0)"
    by (simp add: table_inv_def)
  with st show ?thesis by (simp add: dijkstra_with_heap_def)
qed

theorem start_distance_zero_witness:
  "''A'' \<in> vertices detour_graph \<and> neighbors_are_keys detour_graph \<and> \<not> nonneg_weights detour_graph \<and>
   (\<exists>t. dijkstra_with_heap detour_graph ''A'' = Inr t \<and> t ''A'' = Some (Fin 0))"
proof -
  have v: "''A'' \<in> vertices detour_graph" by (simp add: vertices_def detour_graph_def)
  have k: "neighbors_are_keys detour_graph"
    by (simp add: neighbors_are_keys_def vertices_def detour_graph_def)
  have n: "\<not> nonneg_weights detour_graph" by (simp add: nonneg_weights_def detour_graph_def)
  from v k n start_distance_zero [OF v k] show ?thesis by simp
qed

text \<open>
  Claim C3, as amended: for every graph and every start vertex that is not a key of the graph,
  the call raises \<open>KeyError\<close> for the start vertex (at the lookup \<open>graph[current_vertex]\<close> of
  the first iteration) and returns no table. The claim as stated, that the error is
  \<open>VertexNotFound\<close>, fails.
\<close>

theorem start_missing_key_error:
  assumes "start \<notin> vertices g"
  shows "dijkstra_with_heap g start = Inl (KeyError start)"
  using start_not_key [OF assms] by (simp add: dijkstra_with_heap_def)

theorem start_missing_key_error_witness:
  "''Z'' \<notin> vertices lonely_graph \<and> dijkstra_with_heap lonely_graph ''Z'' = Inl (KeyError ''Z'')"
proof -
  have "''Z'' \<notin> vertices lonely_graph" by (simp add: vertices_def lonely_graph_def)
  with start_missing_key_error [OF this] show ?thesis by simp
qed

theorem start_missing_counterexample:
  "''Z'' \<notin> vertices lonely_graph \<and> dijkstra_with_heap lonely_graph ''Z'' \<noteq> Inl VertexNotFound"
proof -
  have "''Z'' \<notin> vertices lonely_graph" by (simp add: vertices_def lonely_graph_def)
  moreover from this have "dijkstra_with_heap lonely_graph ''Z'' = Inl (KeyError ''Z'')"
    by (simp add: dijkstra_with_heap_def start_not_key)
  ultimately show ?thesis by simp
qed

text \<open>
  Claim C8: the call validates no weight. For every graph that has a negative weight, with
  all neighbours among the keys and the start vertex a key, the loop ends without an error
  and the call returns a table over the vertices of the graph.
\<close>

theorem negative_weights_accepted:
  assumes "\<not> nonneg_weights g" and "start \<in> vertices g" and "neighbors_are_keys g"
  shows "\<exists>t. dijkstra_with_heap g start = Inr t \<and> dom t = vertices g"
proof -
  from dijkstra_run_succeeds [OF assms(2,3)] obtain st where st: "dijkstra_run g start = Inr st" ..
  from dijkstra_run_table_inv(1) [OF st] assms(2) have "dom (distances st) = vertices g"
    by (simp add: table_inv_def insert_absorb)
  with st show ?thesis by (simp add: dijkstra_with_heap_def)
qed

text \<open>
  The witness is a graph on which the returned entry for \<open>B\<close> is 2 although the path
  through \<open>C\<close> weighs 1: with a negative weight the table need not hold shortest distances.
\<close>

theorem negative_weights_accepted_witness:
  "\<not> nonneg_weights detour_graph \<and> ''A'' \<in> vertices detour_graph \<and> neighbors_are_keys detour_graph \<and>
   (\<exists>t. dijkstra_with_heap detour_graph ''A'' = Inr t \<and> dom t = vertices detour_graph \<and>
      t ''B'' = Some (Fin 2)) \<and>
   is_path detour_graph ''A'' [(''A'', ''C'', 5), (''C'', ''B'', - 4)] ''B'' \<and>
   weight [(''A'', ''C'', 5), (''C'', ''B'', - 4)] = 1"
proof -
  have v: "''A'' \<in> vertices detour_graph" by (simp add: vertices_def detour_graph_def)
  have k: "neighbors_are_keys detour_graph"
    by (simp add: neighbors_are_keys_def vertices_def detour_graph_def)
  have n: "\<not> nonneg_weights detour_graph" by (simp add: nonneg_weights_def detour_graph_def)
  from negative_weights_accepted [OF n v k] obtain t where
    t: "dijkstra_with_heap detour_graph ''A'' = Inr t" "dom t = vertices detour_graph" by blast
  have "case dijkstra_with_heap detour_graph ''A'' of Inl e \<Rightarrow> False | Inr t \<Rightarrow> t ''B'' = Some (Fin 2)"
    by code_simp
  with t have b: "t ''B'' = Some (Fin 2)" by simp
  have p: "is_path detour_graph ''A'' [(''A'', ''C'', 5), (''C'', ''B'', - 4)] ''B''"
    by (simp add: edge_def detour_graph_def)
  from v k n t b p show ?thesis by simp
qed

text \<open>
  Claim C9: the graph is only read. The state of a run holds the caller's graph beside the
  three local structures; after any number of iterations, and when the call has run to
  completion, the graph of the state is the graph that was passed in, and the returned table
  is the table of the final state.
\<close>

theorem graph_not_mutated:
  "(iterate n (initial_state g start) = Some a \<longrightarrow> graph a = g) \<and>
   (dijkstra_run g start = Inr st \<longrightarrow> graph st = g \<and> dijkstra_with_heap g start = Inr (distances st))"
proof -
  have "graph (initial_state g start) = g" by (simp add: initial_state_def)
  then show ?thesis
    by (auto simp: dijkstra_run_def dijkstra_with_heap_def dest: iterate_graph while_loop_graph)
qed

theorem graph_not_mutated_witness:
  "\<exists>a st. iterate 2 (initial_state lonely_graph ''A'') = Some a \<and> graph a = lonely_graph \<and>
     dijkstra_run lonely_graph ''A'' = Inr st \<and> graph st = lonely_graph \<and>
     dijkstra_with_heap lonely_graph ''A'' = Inr (distances st)"
proof -
  have "case iterate 2 (initial_state lonely_graph ''A'') of None \<Rightarrow> False | Some a \<Rightarrow> True"
    by code_simp
  then obtain a where a: "iterate 2 (initial_state lonely_graph ''A'') = Some a"
    by (cases "iterate 2 (initial_state lonely_graph ''A'')") simp_all
  have "''A'' \<in> vertices lonely_graph" "neighbors_are_keys lonely_graph"
    by (simp_all add: vertices_def neighbors_are_keys_def lonely_graph_def)
  from dijkstra_run_succeeds [OF this] obtain st where st: "dijkstra_run lonely_graph ''A'' = Inr st" ..
  from a st graph_not_mutated [of 2 lonely_graph "''A''" a st]
  have "iterate 2 (initial_state lonely_graph ''A'') = Some a \<and> graph a = lonely_graph \<and>
     dijkstra_run lonely_graph ''A'' = Inr st \<and> graph st = lonely_graph \<and>
     dijkstra_with_heap lonely_graph ''A'' = Inr (distances st)"
    by simp
  then show ?thesis by (intro exI)
qed

subsection \<open>Visits and the length of a run\<close>

lemma loop_body_visited_mono: "loop_body a = Inr b \<Longrightarrow> v \<in> visited a \<Longrightarrow> v \<in> visited b"
  by (erule loop_body_cases) simp_all

lemma loop_body_final: "loop_body a = Inr b \<Longrightarrow> v \<in> visited b \<Longrightarrow> distances b v = distances a v"
proof (erule loop_body_cases)
  fix cd cv q
  assume "b = a\<lparr>priority_queue := q\<rparr>"
  then show ?thesis by simp
next
  fix cd cv q items d q'
  assume "v \<in> visited b"
    and rel: "relax (insert cv (visited a)) cd items (distances a, q) = Inr (d, q')"
    and b: "b = a\<lparr>distances := d, visited := insert cv (visited a), priority_queue := q'\<rparr>"
  then have "v \<in> insert cv (visited a)" by simp
  from relax_visited [OF rel this] b show ?thesis by simp
qed

lemma iterate_final:
  "iterate k b = Some c \<Longrightarrow> v \<in> visited b \<Longrightarrow> v \<in> visited c \<and> distances c v = distances b v"
proof (induction k arbitrary: b)
  case 0
  then show ?case by simp
next
  case (Suc k)
  from Suc.prems(1) obtain b' where b': "loop_body b = Inr b'" and it: "iterate k b' = Some c"
    by (auto split: if_splits sum.splits)
  from loop_body_visited_mono [OF b' Suc.prems(2)] have v: "v \<in> visited b'" .
  from Suc.IH [OF it v] loop_body_final [OF b' v] show ?case by simp
qed

lemma visit_order_fresh:
  "set (visit_order n st) \<inter> visited st = {} \<and> distinct (visit_order n st)"
proof (induction n arbitrary: st)
  case 0
  show ?case by simp
next
  case (Suc n)
  show ?case
  proof (cases "heappop (priority_queue st)")
    case None
    then show ?thesis by simp
  next
    case (Some r)
    obtain cd cv q where r: "r = ((cd, cv), q)" by (cases r) auto
    show ?thesis
    proof (cases "loop_body st")
      case (Inl e)
      with Some r show ?thesis by simp
    next
      case (Inr st')
      from Suc.IH [of st'] have ih: "set (visit_order n st') \<inter> visited st' = {}"
        "distinct (visit_order n st')" by simp_all
      from Inr show ?thesis
      proof (cases rule: loop_body_cases)
        case (stale cd' cv' q0)
        with Some r have "cv \<in> visited st" "visited st' = visited st" by simp_all
        with Some r Inr ih show ?thesis by simp
      next
        case (visit cd' cv' q0 items d q')
        with Some r have "cv \<notin> visited st" "visited st' = insert cv (visited st)" by simp_all
        with Some r Inr ih show ?thesis by auto
      qed
    qed
  qed
qed

lemma loop_measure_initial: "loop_measure (initial_state g s) = 1 + edge_count g"
  by (simp add: loop_measure_def initial_state_def pending_def edge_count_def)

lemma loop_body_queue:
  assumes "loop_body a = Inr b"
  shows "\<exists>x q pushed. heappop (priority_queue a) = Some (x, q) \<and>
           Suc (length q) = length (priority_queue a) \<and> priority_queue b = pushed @ q"
  using assms
proof (cases rule: loop_body_cases)
  case (stale cd cv q)
  from stale(1) heappop_length [OF stale(1)] stale(3) show ?thesis by simp
next
  case (visit cd cv q items d q')
  from relax_suffix [OF visit(4)] obtain pushed where "q' = pushed @ q" by blast
  with visit(1) heappop_length [OF visit(1)] visit(5) show ?thesis by simp
qed

text \<open>
  Claim C5: in every run, let \<open>a\<close> be a state that the loop reaches and from which the
  next iteration adds \<open>v\<close> to the visited set. In every state \<open>c\<close> reached after that
  iteration, \<open>v\<close> is still visited, its table entry is the one it had when it was added,
  and no further iteration adds it again. (The weights play no part: a visited vertex is
  skipped by the inner loop whatever their sign.)
\<close>

theorem visited_is_final:
  assumes "iterate i (initial_state g start) = Some a" and "enters v a"
    and "iterate (Suc k) a = Some c"
  shows "v \<in> visited c \<and> distances c v = distances a v \<and> \<not> enters v c"
proof -
  from assms(3) obtain b where b: "loop_body a = Inr b" and it: "iterate k b = Some c"
    by (auto split: if_splits sum.splits)
  from assms(2) b have v: "v \<in> visited b" by (simp add: enters_def)
  from iterate_final [OF it v] loop_body_final [OF b v] show ?thesis
    by (auto simp: enters_def split: sum.splits)
qed

theorem visited_is_final_witness:
  "\<exists>a c. iterate 1 (initial_state create_sample_graph ''A'') = Some a \<and> enters ''B'' a \<and>
     iterate (Suc 2) a = Some c \<and>
     ''B'' \<in> visited c \<and> distances c ''B'' = distances a ''B'' \<and> \<not> enters ''B'' c"
proof -
  have "case iterate 1 (initial_state create_sample_graph ''A'') of
          None \<Rightarrow> False
        | Some a \<Rightarrow> enters ''B'' a \<and> (case iterate (Suc 2) a of None \<Rightarrow> False | Some c \<Rightarrow> True)"
    by code_simp
  then obtain a c where a: "iterate 1 (initial_state create_sample_graph ''A'') = Some a"
    and e: "enters ''B'' a" and c: "iterate (Suc 2) a = Some c"
    by (auto split: option.splits)
  from visited_is_final [OF a e c] a e c show ?thesis by blast
qed

text \<open>
  Claim C6: for every graph whose neighbours are all keys and every start vertex that is a
  key, the loop ends: after some number \<open>n\<close> of iterations, at most one more than the number
  of adjacency items of the graph, the heap is empty and the run returns that state.
  In every state reached after \<open>k\<close> iterations: each iteration so far has popped exactly one
  entry and pushed its new entries on top of the rest, so \<open>k\<close> plus the current length of the
  heap is the number of pushes so far, the seed entry included, and this number is at most the
  number of adjacency items plus one; and no vertex was added to the visited set twice.
\<close>

theorem loop_terminates:
  assumes "start \<in> vertices g" and "neighbors_are_keys g"
  shows "(\<exists>n st. n \<le> 1 + edge_count g \<and> iterate n (initial_state g start) = Some st \<and>
            priority_queue st = [] \<and> dijkstra_run g start = Inr st) \<and>
         (\<forall>k a. iterate k (initial_state g start) = Some a \<longrightarrow>
            k + length (priority_queue a) \<le> 1 + edge_count g \<and>
            distinct (visit_order k (initial_state g start)) \<and>
            (\<forall>b. loop_body a = Inr b \<longrightarrow>
               (\<exists>x q pushed. heappop (priority_queue a) = Some (x, q) \<and>
                  Suc (length q) = length (priority_queue a) \<and> priority_queue b = pushed @ q)))"
proof (intro conjI allI impI)
  from dijkstra_run_succeeds [OF assms] obtain st where st: "dijkstra_run g start = Inr st" ..
  then have "while_loop (initial_state g start) = Inr st" by (simp add: dijkstra_run_def)
  from while_loop_iterate [OF this] obtain n where n: "iterate n (initial_state g start) = Some st" ..
  from iterate_measure [OF n] have "n \<le> 1 + edge_count g" by (simp add: loop_measure_initial)
  with n dijkstra_run_table_inv(2) [OF st] st
  show "\<exists>n st. n \<le> 1 + edge_count g \<and> iterate n (initial_state g start) = Some st \<and>
            priority_queue st = [] \<and> dijkstra_run g start = Inr st"
    by blast
next
  fix k a
  assume "iterate k (initial_state g start) = Some a"
  from iterate_measure [OF this] have "k + loop_measure a \<le> 1 + edge_count g"
    by (simp add: loop_measure_initial)
  then show "k + length (priority_queue a) \<le> 1 + edge_count g"
    by (simp add: loop_measure_def)
next
  fix k
  show "distinct (visit_order k (initial_state g start))" by (simp add: visit_order_fresh)
next
  fix a b
  assume "loop_body a = Inr b"
  then show "\<exists>x q pushed. heappop (priority_queue a) = Some (x, q) \<and>
                  Suc (length q) = length (priority_queue a) \<and> priority_queue b = pushed @ q"
    by (rule loop_body_queue)
qed

theorem loop_terminates_witness:
  "''A'' \<in> vertices create_sample_graph \<and> neighbors_are_keys create_sample_graph \<and> edge_count create_sample_graph = 10 \<and>
   (\<exists>n st. n \<le> 1 + edge_count create_sample_graph \<and> iterate n (initial_state create_sample_graph ''A'') = Some st \<and>
      priority_queue st = [] \<and> dijkstra_run create_sample_graph ''A'' = Inr st) \<and>
   (\<exists>a. iterate 2 (initial_state create_sample_graph ''A'') = Some a \<and>
      2 + length (priority_queue a) \<le> 1 + edge_count create_sample_graph \<and>
      distinct (visit_order 2 (initial_state create_sample_graph ''A'')))"
proof -
  have v: "''A'' \<in> vertices create_sample_graph" by (simp add: vertices_def create_sample_graph_def)
  have k: "neighbors_are_keys create_sample_graph"
    by (simp add: neighbors_are_keys_def vertices_def create_sample_graph_def)
  have e: "edge_count create_sample_graph = 10" by (simp add: edge_count_def create_sample_graph_def)
  have "case iterate 2 (initial_state create_sample_graph ''A'') of None \<Rightarrow> False | Some a \<Rightarrow> True"
    by code_simp
  then obtain a where a: "iterate 2 (initial_state create_sample_graph ''A'') = Some a"
    by (auto split: option.splits)
  note t = loop_terminates [OF v k]
  from t have "\<exists>n st. n \<le> 1 + edge_count create_sample_graph \<and>
      iterate n (initial_state create_sample_graph ''A'') = Some st \<and>
      priority_queue st = [] \<and> dijkstra_run create_sample_graph ''A'' = Inr st" ..
  moreover from t a have "2 + length (priority_queue a) \<le> 1 + edge_count create_sample_graph \<and>
      distinct (visit_order 2 (initial_state create_sample_graph ''A''))"
    by blast
  ultimately show ?thesis using v k e a by blast
qed

subsection \<open>Neighbours that are not keys\<close>

lemma while_loop_error:
  assumes "while_loop st = Inl e" and "I st"
    and step: "\<And>a b. I a \<Longrightarrow> priority_queue a \<noteq> [] \<Longrightarrow> loop_body a = Inr b \<Longrightarrow> I b"
  shows "\<exists>a. I a \<and> priority_queue a \<noteq> [] \<and> loop_body a = Inl e"
  using assms(1,2)
proof (induction st rule: while_loop.induct)
  case (1 st)
  from "1.prems"(1) have ne: "priority_queue st \<noteq> []"
    by (auto simp: while_loop.simps [of st] split: if_splits)
  show ?case
  proof (cases "loop_body st")
    case (Inl e')
    with "1.prems"(1) ne have "e' = e" by (simp add: while_loop.simps [of st])
    with Inl ne "1.prems"(2) show ?thesis by blast
  next
    case (Inr b)
    with "1.prems"(1) ne have w: "while_loop b = Inl e" by (simp add: while_loop.simps [of st])
    from "1.IH" [OF ne Inr w step [OF "1.prems"(2) ne Inr]] show ?thesis .
  qed
qed

lemma table_inv_error:
  assumes inv: "table_inv g s a" and ne: "priority_queue a \<noteq> []"
    and err: "loop_body a = Inl e" and s: "s \<in> vertices g"
  shows "\<exists>y u w. e = KeyError y \<and> y \<notin> vertices g \<and> edge g u y w"
proof -
  from inv s have g: "graph a = g" and dm: "dom (distances a) = vertices g"
    and qd: "\<And>k v. (k, v) \<in> set (priority_queue a) \<Longrightarrow> \<exists>k'\<le>k. distances a v = Some (Fin k')"
    unfolding table_inv_def by (blast, simp add: insert_absorb, blast)
  from err ne show ?thesis
  proof (cases rule: loop_body_error_cases)
    case (lookup cd cv q)
    from qd [OF heappop_Some(1) [OF lookup(1)]] have "cv \<in> dom (distances a)" by blast
    with dm lookup(3) g show ?thesis by (simp add: map_of_vertices)
  next
    case (inner cd cv q items)
    from relax_error [OF inner(4)] obtain nb w where
      nb: "e = KeyError nb" "(nb, w) \<in> set items" "nb \<notin> dom (distances a)" by blast
    from inner(3) g nb(2) have "edge g cv nb w" by (simp add: edge_def)
    with nb(1,3) dm show ?thesis by blast
  qed
qed

text \<open>When the run ends, every vertex on a path from the start vertex has been visited.\<close>

lemma reachable_visited:
  assumes inv: "table_inv g s st" and emp: "priority_queue st = []"
  shows "is_path g s p u \<Longrightarrow> u \<in> visited st"
proof (induction p arbitrary: u rule: rev_induct)
  case Nil
  from inv emp show ?case using Nil by (auto simp: table_inv_def)
next
  case (snoc e p)
  obtain a b c where e: "e = (a, b, c)" by (cases e)
  from snoc.prems have "is_path g s p a \<and> edge g a b c \<and> b = u"
    unfolding e is_path_snoc .
  then have p: "is_path g s p a" and ed: "edge g a b c" and b: "b = u" by blast+
  from snoc.IH [OF p] have "a \<in> visited st" .
  with inv ed obtain k where "distances st b = Some (Fin k)"
    unfolding table_inv_def by blast
  with inv emp b show ?case unfolding table_inv_def by fastforce
qed

text \<open>
  A vertex on a path from the start vertex with an item for a neighbour that is not a key
  makes the call fail: the run cannot end with a table, and the only error it can raise is
  the \<open>KeyError\<close> of a table lookup for some neighbour that is not a key. Which neighbour
  that is depends on the order of the run.
\<close>

lemma reachable_missing_neighbor_raises:
  assumes "start \<in> vertices g" and "is_path g start p u" and "edge g u x w"
    and "x \<notin> vertices g"
  shows "\<exists>y u' w'. y \<notin> vertices g \<and> edge g u' y w' \<and>
           dijkstra_with_heap g start = Inl (KeyError y)"
proof (cases "dijkstra_run g start")
  case (Inr st)
  note inv = dijkstra_run_table_inv [OF Inr]
  from reachable_visited [OF inv assms(2)] have "u \<in> visited st" .
  with inv(1) assms(3) obtain k where "distances st x = Some (Fin k)"
    unfolding table_inv_def by blast
  then have "x \<in> dom (distances st)" by blast
  with inv(1) assms(1,4) show ?thesis by (auto simp: table_inv_def)
next
  case (Inl e)
  then have "while_loop (initial_state g start) = Inl e" by (simp add: dijkstra_run_def)
  then have "\<exists>a. table_inv g start a \<and> priority_queue a \<noteq> [] \<and> loop_body a = Inl e"
    by (rule while_loop_error) (auto intro: table_inv_initial table_inv_step)
  then obtain a where "table_inv g start a" "priority_queue a \<noteq> []" "loop_body a = Inl e"
    by blast
  from table_inv_error [OF this assms(1)] Inl show ?thesis
    by (auto simp: dijkstra_with_heap_def)
qed

text \<open>The inner loop over a list of items is the loop over its front, then over its rest.\<close>

lemma relax_append:
  "relax vis cd (xs @ ys) (d, q) =
   (case relax vis cd xs (d, q) of Inl e \<Rightarrow> Inl e | Inr r \<Rightarrow> relax vis cd ys r)"
proof (induction xs arbitrary: d q)
  case Nil
  show ?case by simp
next
  case (Cons it xs)
  obtain nb w where it: "it = (nb, w)" by (cases it)
  show ?case
  proof (cases "nb \<in> vis")
    case True
    with Cons.IH [of d q] show ?thesis by (simp add: it)
  next
    case False
    show ?thesis
    proof (cases "d nb")
      case None
      with False show ?thesis by (simp add: it)
    next
      case (Some old)
      show ?thesis
      proof (cases "dist_less (cd + w) old")
        case True
        have "relax vis cd ((nb, w) # xs @ ys) (d, q) =
            relax vis cd (xs @ ys) (d(nb \<mapsto> Fin (cd + w)), heappush q (cd + w, nb))"
          using False Some True by (simp add: Let_def)
        also have "\<dots> =
            (case relax vis cd xs (d(nb \<mapsto> Fin (cd + w)), heappush q (cd + w, nb)) of
               Inl e \<Rightarrow> Inl e | Inr r \<Rightarrow> relax vis cd ys r)"
          by (rule Cons.IH)
        also have "relax vis cd xs (d(nb \<mapsto> Fin (cd + w)), heappush q (cd + w, nb)) =
            relax vis cd ((nb, w) # xs) (d, q)"
          using False Some True by (simp add: Let_def)
        finally show ?thesis by (simp add: it)
      next
        case notless: False
        have "relax vis cd ((nb, w) # xs @ ys) (d, q) = relax vis cd (xs @ ys) (d, q)"
          using False Some notless by (simp add: Let_def)
        also have "\<dots> =
            (case relax vis cd xs (d, q) of Inl e \<Rightarrow> Inl e | Inr r \<Rightarrow> relax vis cd ys r)"
          by (rule Cons.IH)
        also have "relax vis cd xs (d, q) = relax vis cd ((nb, w) # xs) (d, q)"
          using False Some notless by (simp add: Let_def)
        finally show ?thesis by (simp add: it)
      qed
    qed
  qed
qed

lemma iterate_while_loop: "iterate n st = Some st' \<Longrightarrow> while_loop st = while_loop st'"
proof (induction n arbitrary: st)
  case 0
  then show ?case by simp
next
  case (Suc n)
  from Suc.prems obtain b where ne: "priority_queue st \<noteq> []"
    and b: "loop_body st = Inr b" and it: "iterate n b = Some st'"
    by (auto split: if_splits sum.splits)
  from Suc.IH [OF it] ne b show ?case by (simp add: while_loop.simps [of st])
qed

lemma iterate_table_inv:
  assumes "iterate n (initial_state g s) = Some a"
  shows "table_inv g s a"
  using assms table_inv_initial
proof (rule iterate_invariant)
  fix a b
  assume "table_inv g s a" and "loop_body a = Inr b"
  then show "table_inv g s b" by (rule table_inv_step)
qed

text \<open>A run from a start vertex that is not a key does not get past its first iteration.\<close>

lemma iterate_start_not_key:
  assumes "iterate n (initial_state g s) = Some a" and "s \<notin> vertices g"
  shows "a = initial_state g s"
proof (cases n)
  case 0
  with assms(1) show ?thesis by simp
next
  case (Suc m)
  from assms(2) have "map_of g s = None" by (simp add: map_of_vertices)
  then have "loop_body (initial_state g s) = Inl (KeyError s)"
    by (simp add: loop_body_def initial_state_def heappop_single Let_def)
  with assms(1) Suc show ?thesis by (simp split: if_splits)
qed

text \<open>
  The state \<open>a\<close> is reached by the run, its next iteration pops \<open>cv\<close>, which is not
  visited yet, and the inner loop has worked through the items \<open>pre\<close> of \<open>graph[cv]\<close>
  without an error, so that it examines the item \<open>(x, w)\<close> next.
\<close>

lemma examined_missing_neighbor:
  assumes run: "iterate i (initial_state g start) = Some a"
    and pop: "heappop (priority_queue a) = Some ((cd, cv), q)" and cv: "cv \<notin> visited a"
    and items: "map_of g cv = Some (pre @ (x, w) # post)"
    and pre: "relax (insert cv (visited a)) cd pre (distances a, q) = Inr (d, q')"
    and x: "x \<notin> vertices g"
  shows "x \<notin> insert cv (visited a)" and "d x = None"
    and "dijkstra_with_heap g start = Inl (KeyError x)"
proof -
  note inv = iterate_table_inv [OF run]
  from inv have g: "graph a = g" and dm: "dom (distances a) = insert start (vertices g)"
    and vf: "\<And>v. v \<in> visited a \<Longrightarrow> \<exists>k. distances a v = Some (Fin k)"
    unfolding table_inv_def by blast+
  from items have "map_of g cv \<noteq> None" by simp
  then have cvk: "cv \<in> vertices g" by (simp add: map_of_vertices)
  have sk: "start \<in> vertices g"
  proof (rule ccontr)
    assume ns: "start \<notin> vertices g"
    from iterate_start_not_key [OF run ns] pop have "cv = start"
      by (simp add: initial_state_def heappop_single)
    with cvk ns show False by simp
  qed
  with dm have dm': "dom (distances a) = vertices g" by (simp add: insert_absorb)
  have "x \<notin> visited a"
  proof
    assume "x \<in> visited a"
    from vf [OF this] have "x \<in> dom (distances a)" by blast
    with dm' x show False by simp
  qed
  with cvk x show nv: "x \<notin> insert cv (visited a)" by auto
  from relax_dom [OF pre] dm' x show dx: "d x = None" by blast
  from nv dx have "relax (insert cv (visited a)) cd ((x, w) # post) (d, q') = Inl (KeyError x)"
    by (simp add: Let_def)
  with pre have "relax (insert cv (visited a)) cd (pre @ (x, w) # post) (distances a, q) =
      Inl (KeyError x)"
    by (simp add: relax_append)
  with pop cv items g have body: "loop_body a = Inl (KeyError x)"
    by (simp add: loop_body_def Let_def)
  from pop have "priority_queue a \<noteq> []" by (auto simp: heappop_def split: if_splits)
  with body have "while_loop a = Inl (KeyError x)" by (simp add: while_loop.simps [of a])
  with iterate_while_loop [OF run] have "dijkstra_run g start = Inl (KeyError x)"
    by (simp add: dijkstra_run_def)
  then show "dijkstra_with_heap g start = Inl (KeyError x)" by (simp add: dijkstra_with_heap_def)
qed

text \<open>The table of a call that returns is over the keys of the graph, whatever the graph.\<close>

lemma returned_table_dom:
  assumes "dijkstra_with_heap g start = Inr t"
  shows "dom t = vertices g"
proof -
  from assms obtain st where st: "dijkstra_run g start = Inr st" and t: "t = distances st"
    by (auto simp: dijkstra_with_heap_def split: sum.splits)
  have "start \<in> vertices g"
  proof (rule ccontr)
    assume "start \<notin> vertices g"
    from start_not_key [OF this] st show False by simp
  qed
  with dijkstra_run_table_inv(1) [OF st] t show ?thesis
    by (simp add: table_inv_def insert_absorb)
qed

text \<open>
  Claim C10: let the run reach a state whose next iteration pops a vertex \<open>cv\<close> that is not
  visited yet, and let the inner loop have worked through the items \<open>pre\<close> of
  \<open>graph[cv]\<close> without an error, so that it examines next an item \<open>(x, w)\<close> whose
  neighbour \<open>x\<close> is not a key of the graph. Then \<open>x\<close> is not visited and has no table
  entry, and the call raises \<open>KeyError\<close> for this very \<open>x\<close> and returns no table.
  No neighbour is ever entered into the table: in every state that a run reaches, the keys
  of the table are the keys of the graph and the start vertex, and the keys of a returned
  table are exactly the keys of the graph. Nothing is assumed of the graph, the weights or the
  start vertex.
\<close>

theorem missing_neighbor_key_error:
  "(iterate i (initial_state g start) = Some a \<and>
    heappop (priority_queue a) = Some ((cd, cv), q) \<and> cv \<notin> visited a \<and>
    map_of g cv = Some (pre @ (x, w) # post) \<and>
    relax (insert cv (visited a)) cd pre (distances a, q) = Inr (d, q') \<and>
    x \<notin> vertices g
    \<longrightarrow> x \<notin> insert cv (visited a) \<and> d x = None \<and>
        dijkstra_with_heap g start = Inl (KeyError x)) \<and>
   (iterate j (initial_state g start) = Some b \<longrightarrow>
      dom (distances b) = insert start (vertices g)) \<and>
   (dijkstra_with_heap g start = Inr t \<longrightarrow> dom t = vertices g)"
proof (intro conjI impI)
  assume h: "iterate i (initial_state g start) = Some a \<and>
    heappop (priority_queue a) = Some ((cd, cv), q) \<and> cv \<notin> visited a \<and>
    map_of g cv = Some (pre @ (x, w) # post) \<and>
    relax (insert cv (visited a)) cd pre (distances a, q) = Inr (d, q') \<and>
    x \<notin> vertices g"
  then have run: "iterate i (initial_state g start) = Some a"
    and pop: "heappop (priority_queue a) = Some ((cd, cv), q)" and cv: "cv \<notin> visited a"
    and items: "map_of g cv = Some (pre @ (x, w) # post)"
    and pre: "relax (insert cv (visited a)) cd pre (distances a, q) = Inr (d, q')"
    and x: "x \<notin> vertices g"
    by blast+
  note e = examined_missing_neighbor [OF run pop cv items pre x]
  from e(1) show "x \<notin> insert cv (visited a)" .
  from e(2) show "d x = None" .
  from e(3) show "dijkstra_with_heap g start = Inl (KeyError x)" .
next
  assume "iterate j (initial_state g start) = Some b"
  from iterate_table_inv [OF this] show "dom (distances b) = insert start (vertices g)"
    by (simp add: table_inv_def)
next
  assume "dijkstra_with_heap g start = Inr t"
  then show "dom t = vertices g" by (rule returned_table_dom)
qed

text \<open>
  The witness: on \<open>dangling_graph\<close> from \<open>A\<close>, the second iteration pops \<open>B\<close>, skips
  the visited \<open>A\<close>, relaxes \<open>C\<close> and then examines \<open>X\<close>; the error is for \<open>X\<close>, not
  for \<open>Y\<close>. On \<open>stray_graph\<close> from \<open>A\<close> the item for \<open>X\<close> is never examined, and the
  returned table has the keys \<open>A\<close> and \<open>B\<close> only.
\<close>

theorem missing_neighbor_key_error_witness:
  "(\<exists>a d q'. iterate 1 (initial_state dangling_graph ''A'') = Some a \<and>
      heappop (priority_queue a) = Some ((1, ''B''), []) \<and> ''B'' \<notin> visited a \<and>
      map_of dangling_graph ''B'' = Some ([(''A'', 7), (''C'', 3)] @ (''X'', 2) # [(''Y'', 1)]) \<and>
      relax (insert ''B'' (visited a)) 1 [(''A'', 7), (''C'', 3)] (distances a, []) = Inr (d, q') \<and>
      ''X'' \<notin> vertices dangling_graph \<and> ''Y'' \<notin> vertices dangling_graph \<and>
      ''X'' \<notin> insert ''B'' (visited a) \<and> d ''X'' = None \<and>
      dijkstra_with_heap dangling_graph ''A'' = Inl (KeyError ''X'') \<and>
      dom (distances a) = insert ''A'' (vertices dangling_graph)) \<and>
   (\<exists>t. dijkstra_with_heap stray_graph ''A'' = Inr t \<and> dom t = vertices stray_graph \<and>
      t ''X'' = None \<and> edge stray_graph ''B'' ''X'' 1)"
proof -
  let ?pre = "[(''A'', 7), (''C'', 3 :: int)]"
  have "case iterate 1 (initial_state dangling_graph ''A'') of
          None \<Rightarrow> False
        | Some a \<Rightarrow> heappop (priority_queue a) = Some ((1, ''B''), []) \<and> ''B'' \<notin> visited a \<and>
            (case relax (insert ''B'' (visited a)) 1 ?pre (distances a, []) of
               Inl e \<Rightarrow> False | Inr r \<Rightarrow> True)"
    by code_simp
  then obtain a d q' where a: "iterate 1 (initial_state dangling_graph ''A'') = Some a"
    and pop: "heappop (priority_queue a) = Some ((1, ''B''), [])" and cv: "''B'' \<notin> visited a"
    and pre: "relax (insert ''B'' (visited a)) 1 ?pre (distances a, []) = Inr (d, q')"
    by (auto split: option.splits sum.splits)
  have items: "map_of dangling_graph ''B'' = Some (?pre @ (''X'', 2) # [(''Y'', 1)])"
    by (simp add: dangling_graph_def)
  have x: "''X'' \<notin> vertices dangling_graph" and y: "''Y'' \<notin> vertices dangling_graph"
    by (simp_all add: vertices_def dangling_graph_def)
  note th = missing_neighbor_key_error [of 1 dangling_graph "''A''" a 1 "''B''" "[]" ?pre "''X''" 2
      "[(''Y'', 1)]" d q' 1 a]
  have hyp: "iterate 1 (initial_state dangling_graph ''A'') = Some a \<and>
      heappop (priority_queue a) = Some ((1, ''B''), []) \<and> ''B'' \<notin> visited a \<and>
      map_of dangling_graph ''B'' = Some (?pre @ (''X'', 2) # [(''Y'', 1)]) \<and>
      relax (insert ''B'' (visited a)) 1 ?pre (distances a, []) = Inr (d, q') \<and>
      ''X'' \<notin> vertices dangling_graph"
    using a pop cv items pre x by (intro conjI)
  note c = th [THEN conjunct1, THEN mp, OF hyp]
  note nv = c [THEN conjunct1] and dx = c [THEN conjunct2, THEN conjunct1]
    and err = c [THEN conjunct2, THEN conjunct2]
  note dm = th [THEN conjunct2, THEN conjunct1, THEN mp, OF a]
  have "iterate 1 (initial_state dangling_graph ''A'') = Some a \<and>
      heappop (priority_queue a) = Some ((1, ''B''), []) \<and> ''B'' \<notin> visited a \<and>
      map_of dangling_graph ''B'' = Some (?pre @ (''X'', 2) # [(''Y'', 1)]) \<and>
      relax (insert ''B'' (visited a)) 1 ?pre (distances a, []) = Inr (d, q') \<and>
      ''X'' \<notin> vertices dangling_graph \<and> ''Y'' \<notin> vertices dangling_graph \<and>
      ''X'' \<notin> insert ''B'' (visited a) \<and> d ''X'' = None \<and>
      dijkstra_with_heap dangling_graph ''A'' = Inl (KeyError ''X'') \<and>
      dom (distances a) = insert ''A'' (vertices dangling_graph)"
    using a pop cv items pre x y nv dx err dm by (intro conjI)
  then have first: "\<exists>a d q'. iterate 1 (initial_state dangling_graph ''A'') = Some a \<and>
      heappop (priority_queue a) = Some ((1, ''B''), []) \<and> ''B'' \<notin> visited a \<and>
      map_of dangling_graph ''B'' = Some (?pre @ (''X'', 2) # [(''Y'', 1)]) \<and>
      relax (insert ''B'' (visited a)) 1 ?pre (distances a, []) = Inr (d, q') \<and>
      ''X'' \<notin> vertices dangling_graph \<and> ''Y'' \<notin> vertices dangling_graph \<and>
      ''X'' \<notin> insert ''B'' (visited a) \<and> d ''X'' = None \<and>
      dijkstra_with_heap dangling_graph ''A'' = Inl (KeyError ''X'') \<and>
      dom (distances a) = insert ''A'' (vertices dangling_graph)"
    by (intro exI)
  have "case dijkstra_with_heap stray_graph ''A'' of Inl e \<Rightarrow> False | Inr t \<Rightarrow> True"
    by code_simp
  then obtain t where t: "dijkstra_with_heap stray_graph ''A'' = Inr t"
    by (cases "dijkstra_with_heap stray_graph ''A''") simp_all
  note th' = missing_neighbor_key_error [where g = stray_graph and start = "''A''" and t = t]
  note dt = th' [THEN conjunct2, THEN conjunct2, THEN mp, OF t]
  have "''X'' \<notin> vertices stray_graph" by (simp add: vertices_def stray_graph_def)
  with dt have "''X'' \<notin> dom t" by simp
  then have tx: "t ''X'' = None" by (simp add: domIff)
  have e: "edge stray_graph ''B'' ''X'' 1" by (simp add: edge_def stray_graph_def)
  have "dijkstra_with_heap stray_graph ''A'' = Inr t \<and> dom t = vertices stray_graph \<and>
      t ''X'' = None \<and> edge stray_graph ''B'' ''X'' 1"
    using t dt tx e by (intro conjI)
  then have second: "\<exists>t. dijkstra_with_heap stray_graph ''A'' = Inr t \<and>
      dom t = vertices stray_graph \<and> t ''X'' = None \<and> edge stray_graph ''B'' ''X'' 1"
    by (intro exI)
  from first second show ?thesis by (rule conjI)
qed

subsection \<open>The invariant for non-negative weights\<close>

lemma sp_inv_initial: "sp_inv g s (initial_state g s)"
proof -
  have "is_path g s [] s \<and> weight [] = 0" by simp
  then have "\<exists>p. is_path g s p s \<and> weight p = 0" by blast
  then show ?thesis
    unfolding sp_inv_def initial_state_def
    by (simp add: initial_table)
qed

text \<open>
  Every path from the start vertex to a vertex that is not visited yet is at least as heavy
  as the key of some heap entry.
\<close>

lemma frontier:
  assumes tinv: "table_inv g s st" and inv: "sp_inv g s st" and nn: "nonneg_weights g"
  shows "is_path g s p v \<Longrightarrow> v \<notin> visited st \<Longrightarrow>
         \<exists>k y. (k, y) \<in> set (priority_queue st) \<and> k \<le> weight p"
proof (induction p arbitrary: v rule: rev_induct)
  case Nil
  then have "v = s" by simp
  moreover from tinv have "distances st s = Some (Fin 0)" by (simp add: table_inv_def)
  ultimately have "(0, v) \<in> set (priority_queue st)"
    using inv Nil.prems(2) unfolding sp_inv_def by blast
  then show ?case by auto
next
  case (snoc e p)
  obtain a b c where e: "e = (a, b, c)" by (cases e)
  from snoc.prems(1) have "is_path g s p a \<and> edge g a b c \<and> b = v"
    unfolding e is_path_snoc .
  then have p: "is_path g s p a" and ed: "edge g a v c" by blast+
  from edge_nonneg [OF nn ed] have c: "0 \<le> c" .
  show ?case
  proof (cases "a \<in> visited st")
    case False
    from snoc.IH [OF p False] obtain k y where
      "(k, y) \<in> set (priority_queue st)" "k \<le> weight p" by blast
    with c show ?thesis by (auto simp: e intro!: exI)
  next
    case True
    with tinv obtain ka where ka: "distances st a = Some (Fin ka)"
      unfolding table_inv_def by blast
    with inv True p have le: "ka \<le> weight p" unfolding sp_inv_def by blast
    from inv True ka ed obtain k' where k': "k' \<le> ka + c" "distances st v = Some (Fin k')"
      unfolding sp_inv_def by blast
    with inv snoc.prems(2) have "(k', v) \<in> set (priority_queue st)"
      unfolding sp_inv_def by blast
    moreover from k'(1) le have "k' \<le> weight (p @ [e])" by (simp add: e)
    ultimately show ?thesis by blast
  qed
qed

lemma sp_inv_step:
  assumes tinv: "table_inv g s st" and inv: "sp_inv g s st" and nn: "nonneg_weights g"
    and body: "loop_body st = Inr st'"
  shows "sp_inv g s st'"
proof -
  from tinv have g: "graph st = g"
    and qd: "\<And>k v. (k, v) \<in> set (priority_queue st) \<Longrightarrow> \<exists>k'\<le>k. distances st v = Some (Fin k')"
    and vf: "\<And>v. v \<in> visited st \<Longrightarrow> \<exists>k. distances st v = Some (Fin k)"
    unfolding table_inv_def by blast+
  from inv have P1: "\<And>v k. distances st v = Some (Fin k) \<Longrightarrow> \<exists>p. is_path g s p v \<and> weight p = k"
    and P2: "\<And>v k p. v \<in> visited st \<Longrightarrow> distances st v = Some (Fin k) \<Longrightarrow> is_path g s p v \<Longrightarrow> k \<le> weight p"
    and P4: "\<And>v k. v \<notin> visited st \<Longrightarrow> distances st v = Some (Fin k) \<Longrightarrow> (k, v) \<in> set (priority_queue st)"
    and P5: "\<And>u k v w. u \<in> visited st \<Longrightarrow> distances st u = Some (Fin k) \<Longrightarrow> edge g u v w \<Longrightarrow>
               \<exists>k'\<le>k + w. distances st v = Some (Fin k')"
    unfolding sp_inv_def by blast+
  from body show ?thesis
  proof (cases rule: loop_body_cases)
    case (stale cd cv q)
    note pop = heappop_Some [OF stale(1)]
    have P4': "(k, v) \<in> set q" if "v \<notin> visited st" "distances st v = Some (Fin k)" for v k
    proof -
      from P4 [OF that] have m: "(k, v) \<in> set (priority_queue st)" .
      from that(1) stale(2) have "(k, v) \<noteq> (cd, cv)" by auto
      from pop(4) [OF m this] show ?thesis .
    qed
    have eq: "distances st' = distances st" "visited st' = visited st" "priority_queue st' = q"
      by (simp_all add: stale(3))
    show ?thesis
      unfolding sp_inv_def eq
    proof (intro conjI allI impI)
      fix v k assume "distances st v = Some (Fin k)"
      then show "\<exists>p. is_path g s p v \<and> weight p = k" by (rule P1)
    next
      fix v k p assume "v \<in> visited st \<and> distances st v = Some (Fin k) \<and> is_path g s p v"
      then show "k \<le> weight p" using P2 by blast
    next
      fix v k assume "v \<notin> visited st \<and> distances st v = Some (Fin k)"
      then show "(k, v) \<in> set q" using P4' by blast
    next
      fix u k v w assume "u \<in> visited st \<and> distances st u = Some (Fin k) \<and> edge g u v w"
      then show "\<exists>k'\<le>k + w. distances st v = Some (Fin k')" using P5 by blast
    qed
  next
    case (visit cd cv q items d q')
    note pop = heappop_Some [OF visit(1)]
    let ?vis = "insert cv (visited st)"
    note rel = visit(4)
    from qd [OF pop(1)] obtain kv where kv: "kv \<le> cd" "distances st cv = Some (Fin kv)" by blast
    have least: "cd \<le> weight p" if "is_path g s p cv" for p
    proof -
      from frontier [OF tinv inv nn that visit(2)] obtain k y where
        ky: "(k, y) \<in> set (priority_queue st)" "k \<le> weight p" by blast
      from pop(2) [OF ky(1)] have "cd \<le> k" by auto
      with ky(2) show ?thesis by simp
    qed
    from P1 [OF kv(2)] obtain pv where pv: "is_path g s pv cv" "weight pv = kv" by blast
    from least [OF pv(1)] pv(2) kv(1) have cd: "kv = cd" by simp
    have same: "d v = distances st v" if "v \<in> ?vis" for v
      using relax_visited [OF rel that] .
    have P1': "\<exists>p. is_path g s p v \<and> weight p = k" if dv: "d v = Some (Fin k)" for v k
      using relax_changed [OF rel, of v]
    proof
      assume "d v = distances st v"
      with dv P1 show ?thesis by simp
    next
      assume "\<exists>w. (v, w) \<in> set items \<and> v \<notin> ?vis \<and> d v = Some (Fin (cd + w)) \<and> (cd + w, v) \<in> set q'"
      then obtain w where w: "(v, w) \<in> set items" "d v = Some (Fin (cd + w))" by blast
      from w(1) visit(3) g have "edge g cv v w" by (simp add: edge_def)
      with pv(1) have "is_path g s (pv @ [(cv, v, w)]) v" by (simp add: is_path_snoc)
      moreover from pv(2) cd w(2) dv have "weight (pv @ [(cv, v, w)]) = k" by simp
      ultimately show ?thesis by blast
    qed
    have P2': "k \<le> weight p" if v: "v \<in> ?vis" and dv: "d v = Some (Fin k)" and p: "is_path g s p v"
      for v k p
    proof (cases "v = cv")
      case True
      with same [OF v] dv kv(2) cd least p show ?thesis by simp
    next
      case False
      with v have "v \<in> visited st" by simp
      from P2 [OF this _ p] same [OF v] dv show ?thesis by simp
    qed
    have P4': "(k, v) \<in> set q'" if v: "v \<notin> ?vis" and dv: "d v = Some (Fin k)" for v k
      using relax_changed [OF rel, of v]
    proof
      assume "d v = distances st v"
      with dv v P4 have m: "(k, v) \<in> set (priority_queue st)" by simp
      from v have "(k, v) \<noteq> (cd, cv)" by auto
      from pop(4) [OF m this] relax_queue_mono [OF rel] show ?thesis by blast
    next
      assume "\<exists>w. (v, w) \<in> set items \<and> v \<notin> ?vis \<and> d v = Some (Fin (cd + w)) \<and> (cd + w, v) \<in> set q'"
      with dv show ?thesis by auto
    qed
    have P5': "\<exists>k'\<le>k + w. d v = Some (Fin k')"
      if u: "u \<in> ?vis" and du: "d u = Some (Fin k)" and e: "edge g u v w" for u k v w
    proof (cases "v \<in> ?vis")
      case True
      from du same [OF u] have du0: "distances st u = Some (Fin k)" by simp
      from P1 [OF du0] obtain pu where pu: "is_path g s pu u" "weight pu = k" by blast
      with e have path: "is_path g s (pu @ [(u, v, w)]) v" by (simp add: is_path_snoc)
      from True qd [OF pop(1)] vf obtain k0 where "distances st v = Some (Fin k0)" by blast
      with same [OF True] have dv: "d v = Some (Fin k0)" by simp
      from P2' [OF True dv path] pu(2) have "k0 \<le> k + w" by simp
      with dv show ?thesis by blast
    next
      case False
      show ?thesis
      proof (cases "u = cv")
        case True
        with e visit(3) g have "(v, w) \<in> set items" by (simp add: edge_def)
        from relax_relaxed [OF rel this False] obtain k' where
          k': "k' \<le> cd + w" "d v = Some (Fin k')" by blast
        from True du same [OF u] kv(2) cd have "k = cd" by simp
        with k' show ?thesis by blast
      next
        case False
        with u have uv: "u \<in> visited st" by simp
        from du same [OF u] have "distances st u = Some (Fin k)" by simp
        from P5 [OF uv this e] obtain k0 where k0: "k0 \<le> k + w" "distances st v = Some (Fin k0)"
          by blast
        from relax_decreases [OF rel k0(2)] k0(1) show ?thesis by force
      qed
    qed
    have eq: "distances st' = d" "visited st' = ?vis" "priority_queue st' = q'"
      by (simp_all add: visit(5))
    show ?thesis
      unfolding sp_inv_def eq
    proof (intro conjI allI impI)
      fix v k assume "d v = Some (Fin k)"
      then show "\<exists>p. is_path g s p v \<and> weight p = k" by (rule P1')
    next
      fix v k p assume "v \<in> ?vis \<and> d v = Some (Fin k) \<and> is_path g s p v"
      then show "k \<le> weight p" using P2' by blast
    next
      fix v k assume "v \<notin> ?vis \<and> d v = Some (Fin k)"
      then show "(k, v) \<in> set q'" using P4' by blast
    next
      fix u k v w assume "u \<in> ?vis \<and> d u = Some (Fin k) \<and> edge g u v w"
      then show "\<exists>k'\<le>k + w. d v = Some (Fin k')" using P5' by blast
    qed
  qed
qed

lemma dijkstra_run_sp_inv:
  assumes nn: "nonneg_weights g" and run: "dijkstra_run g s = Inr st"
  shows "sp_inv g s st"
proof -
  from run have "while_loop (initial_state g s) = Inr st" by (simp add: dijkstra_run_def)
  then have "(table_inv g s st \<and> sp_inv g s st) \<and> priority_queue st = []"
    by (rule while_loop_invariant)
      (auto intro: table_inv_initial table_inv_step sp_inv_initial sp_inv_step nn)
  then show ?thesis by simp
qed

text \<open>What the final table holds, for non-negative weights.\<close>

lemma final_table:
  assumes nn: "nonneg_weights g" and run: "dijkstra_run g s = Inr st"
  shows "is_path g s p v \<Longrightarrow> \<exists>d. distances st v = Some (Fin d) \<and> is_shortest g s v d"
    and "distances st v = Some (Fin k) \<Longrightarrow> is_shortest g s v k"
proof -
  note tinv = dijkstra_run_table_inv [OF run]
  note inv = dijkstra_run_sp_inv [OF nn run]
  have fin: "is_shortest g s v k" if k: "distances st v = Some (Fin k)" for v k
  proof -
    from tinv k have v: "v \<in> visited st" unfolding table_inv_def by fastforce
    from inv k have "\<exists>p. is_path g s p v \<and> weight p = k" unfolding sp_inv_def by blast
    moreover from inv v k have "\<forall>p. is_path g s p v \<longrightarrow> k \<le> weight p"
      unfolding sp_inv_def by blast
    ultimately show ?thesis by (simp add: is_shortest_def)
  qed
  show "distances st v = Some (Fin k) \<Longrightarrow> is_shortest g s v k" by (rule fin)
  assume "is_path g s p v"
  from reachable_visited [OF tinv this] have "v \<in> visited st" .
  with tinv(1) obtain d where "distances st v = Some (Fin d)" unfolding table_inv_def by blast
  with fin show "\<exists>d. distances st v = Some (Fin d) \<and> is_shortest g s v d" by blast
qed

text \<open>
  Claim C1: for every graph with non-negative weights whose neighbours are all keys, every
  start vertex that is a key and every vertex \<open>v\<close> to which a path leads from the start
  vertex, the call returns a table, and its entry for \<open>v\<close> is an integer \<open>d\<close> that is the
  weight of a path from the start vertex to \<open>v\<close> and at most the weight of every such path.
\<close>

theorem shortest_distances:
  assumes "nonneg_weights g" and "neighbors_are_keys g" and "start \<in> vertices g"
    and "is_path g start p v"
  shows "\<exists>t d. dijkstra_with_heap g start = Inr t \<and> t v = Some (Fin d) \<and> is_shortest g start v d"
proof -
  from dijkstra_run_succeeds [OF assms(3,2)] obtain st where st: "dijkstra_run g start = Inr st" ..
  from final_table(1) [OF assms(1) st assms(4)] obtain d where
    "distances st v = Some (Fin d)" "is_shortest g start v d" by blast
  with st show ?thesis by (simp add: dijkstra_with_heap_def)
qed

theorem shortest_distances_witness:
  "nonneg_weights create_sample_graph \<and> neighbors_are_keys create_sample_graph \<and> ''A'' \<in> vertices create_sample_graph \<and>
   is_path create_sample_graph ''A'' [(''A'', ''C'', 10), (''C'', ''D'', 2)] ''D'' \<and>
   (\<exists>t. dijkstra_with_heap create_sample_graph ''A'' = Inr t \<and> t ''D'' = Some (Fin 8) \<and>
      is_shortest create_sample_graph ''A'' ''D'' 8)"
proof -
  have n: "nonneg_weights create_sample_graph" by (simp add: nonneg_weights_def create_sample_graph_def)
  have k: "neighbors_are_keys create_sample_graph"
    by (simp add: neighbors_are_keys_def vertices_def create_sample_graph_def)
  have v: "''A'' \<in> vertices create_sample_graph" by (simp add: vertices_def create_sample_graph_def)
  have p: "is_path create_sample_graph ''A'' [(''A'', ''C'', 10), (''C'', ''D'', 2)] ''D''"
    by (simp add: edge_def create_sample_graph_def)
  from shortest_distances [OF n k v p] obtain t d where
    t: "dijkstra_with_heap create_sample_graph ''A'' = Inr t" "t ''D'' = Some (Fin d)"
      "is_shortest create_sample_graph ''A'' ''D'' d" by blast
  have "case dijkstra_with_heap create_sample_graph ''A'' of Inl e \<Rightarrow> False | Inr t \<Rightarrow> t ''D'' = Some (Fin 8)"
    by code_simp
  with t(1,2) have "d = 8" by simp
  with n k v p t show ?thesis by simp
qed

text \<open>
  Claim C4: for every graph with non-negative weights whose neighbours are all keys and every
  start vertex that is a key, the call returns a table whose keys are exactly the keys of the
  graph, and every key to which no path leads from the start vertex is mapped to the
  infinite value.
\<close>

theorem table_covers_vertices:
  assumes "nonneg_weights g" and "neighbors_are_keys g" and "start \<in> vertices g"
  shows "\<exists>t. dijkstra_with_heap g start = Inr t \<and> dom t = vertices g \<and>
           (\<forall>v \<in> vertices g. (\<forall>p. \<not> is_path g start p v) \<longrightarrow> t v = Some Infinity)"
proof -
  from dijkstra_run_succeeds [OF assms(3,2)] obtain st where st: "dijkstra_run g start = Inr st" ..
  from dijkstra_run_table_inv(1) [OF st] assms(3) have dm: "dom (distances st) = vertices g"
    by (simp add: table_inv_def insert_absorb)
  have "distances st v = Some Infinity" if v: "v \<in> vertices g" and un: "\<forall>p. \<not> is_path g start p v" for v
  proof -
    from v dm obtain x where x: "distances st v = Some x" by blast
    show ?thesis
    proof (cases x)
      case (Fin k)
      with x final_table(2) [OF assms(1) st] have "is_shortest g start v k" by blast
      with un show ?thesis by (simp add: is_shortest_def)
    next
      case Infinity
      with x show ?thesis by simp
    qed
  qed
  with st dm show ?thesis by (simp add: dijkstra_with_heap_def)
qed

theorem table_covers_vertices_witness:
  "nonneg_weights lonely_graph \<and> neighbors_are_keys lonely_graph \<and> ''A'' \<in> vertices lonely_graph \<and>
   (\<exists>t. dijkstra_with_heap lonely_graph ''A'' = Inr t \<and> dom t = vertices lonely_graph \<and>
      (\<forall>v \<in> vertices lonely_graph. (\<forall>p. \<not> is_path lonely_graph ''A'' p v) \<longrightarrow> t v = Some Infinity) \<and>
      t ''A'' = Some (Fin 0) \<and> t ''B'' = Some (Fin 1) \<and> t ''C'' = Some Infinity)"
proof -
  have n: "nonneg_weights lonely_graph" by (simp add: nonneg_weights_def lonely_graph_def)
  have k: "neighbors_are_keys lonely_graph"
    by (simp add: neighbors_are_keys_def vertices_def lonely_graph_def)
  have v: "''A'' \<in> vertices lonely_graph" by (simp add: vertices_def lonely_graph_def)
  from table_covers_vertices [OF n k v] obtain t where
    t: "dijkstra_with_heap lonely_graph ''A'' = Inr t" "dom t = vertices lonely_graph"
      "\<forall>v \<in> vertices lonely_graph. (\<forall>p. \<not> is_path lonely_graph ''A'' p v) \<longrightarrow> t v = Some Infinity"
    by blast
  have "case dijkstra_with_heap lonely_graph ''A'' of Inl e \<Rightarrow> False
        | Inr t \<Rightarrow> t ''A'' = Some (Fin 0) \<and> t ''B'' = Some (Fin 1) \<and> t ''C'' = Some Infinity"
    by code_simp
  with t(1) have "t ''A'' = Some (Fin 0) \<and> t ''B'' = Some (Fin 1) \<and> t ''C'' = Some Infinity"
    by simp
  with n k v t show ?thesis by blast
qed

subsection \<open>Monotonicity in the weights\<close>

lemma vertices_increase_weight: "vertices (increase_weight u v k g) = vertices g"
  by (induction g) (auto simp: vertices_def increase_weight_def)

lemma map_of_increase_weight:
  "map_of (increase_weight u v k g) x =
   map_option (\<lambda>items. if x = u then map (\<lambda>(y, w). (y, if y = v then w + k else w)) items else items)
     (map_of g x)"
  by (induction g) (auto simp: increase_weight_def)

lemma edge_increase_weight:
  assumes "edge (increase_weight u v k g) x y w'" and "0 \<le> k"
  shows "\<exists>w\<le>w'. edge g x y w"
proof -
  from assms(1) obtain items where items: "map_of g x = Some items"
    and m: "(y, w') \<in> set (if x = u then map (\<lambda>(y, w). (y, if y = v then w + k else w)) items else items)"
    by (auto simp: edge_def map_of_increase_weight split: option.splits)
  show ?thesis
  proof (cases "x = u")
    case True
    with m obtain w where w: "(y, w) \<in> set items" "w' = (if y = v then w + k else w)" by auto
    from w(2) assms(2) have "w \<le> w'" by simp
    moreover from w(1) items have "edge g x y w" by (simp add: edge_def)
    ultimately show ?thesis by blast
  next
    case False
    with m items show ?thesis by (auto simp: edge_def)
  qed
qed

lemma entry_increase_weight:
  assumes "(x, items') \<in> set (increase_weight u v k g)" and "(y, w') \<in> set items'"
  shows "\<exists>items w. (x, items) \<in> set g \<and> (y, w) \<in> set items \<and> (w' = w \<or> w' = w + k)"
proof -
  from assms(1) obtain items where items: "(x, items) \<in> set g"
    and eq: "items' = (if x = u then map (\<lambda>(y, w). (y, if y = v then w + k else w)) items else items)"
    by (auto simp: increase_weight_def)
  from assms(2) eq have "\<exists>w. (y, w) \<in> set items \<and> (w' = w \<or> w' = w + k)"
    by (auto split: if_splits)
  with items show ?thesis by blast
qed

lemma nonneg_increase_weight:
  assumes "nonneg_weights g" and "0 \<le> k"
  shows "nonneg_weights (increase_weight u v k g)"
  unfolding nonneg_weights_def
proof (clarify)
  fix x items' y w'
  assume "(x, items') \<in> set (increase_weight u v k g)" and "(y, w') \<in> set items'"
  from entry_increase_weight [OF this] obtain items w where
    w: "(x, items) \<in> set g" "(y, w) \<in> set items" "w' = w \<or> w' = w + k" by blast
  from assms(1) w(1,2) have "0 \<le> w" unfolding nonneg_weights_def by blast
  with w(3) assms(2) show "0 \<le> w'" by auto
qed

lemma keys_increase_weight:
  assumes "neighbors_are_keys g"
  shows "neighbors_are_keys (increase_weight u v k g)"
  unfolding neighbors_are_keys_def vertices_increase_weight
proof (clarify)
  fix x items' y w'
  assume "(x, items') \<in> set (increase_weight u v k g)" and "(y, w') \<in> set items'"
  from entry_increase_weight [OF this] obtain items w where
    "(x, items) \<in> set g" "(y, w) \<in> set items" by blast
  with assms show "y \<in> vertices g" unfolding neighbors_are_keys_def by blast
qed

lemma path_increase_weight:
  assumes "0 \<le> k"
  shows "is_path (increase_weight u v k g) s p' x \<Longrightarrow> \<exists>p. is_path g s p x \<and> weight p \<le> weight p'"
proof (induction p' arbitrary: s)
  case Nil
  then have "is_path g s [] x \<and> weight [] \<le> weight []" by simp
  then show ?case by blast
next
  case (Cons e p')
  obtain a b c where e: "e = (a, b, c)" by (cases e)
  from Cons.prems have "a = s \<and> edge (increase_weight u v k g) a b c \<and>
      is_path (increase_weight u v k g) b p' x"
    unfolding e is_path.simps .
  then have a: "a = s" and ed: "edge (increase_weight u v k g) a b c"
    and rest: "is_path (increase_weight u v k g) b p' x"
    by blast+
  from edge_increase_weight [OF ed assms] obtain w where w: "w \<le> c" "edge g a b w" by blast
  from Cons.IH [OF rest] obtain p where p: "is_path g b p x" "weight p \<le> weight p'" by blast
  from a w p have "is_path g s ((a, b, w) # p) x \<and> weight ((a, b, w) # p) \<le> weight (e # p')"
    by (simp add: e)
  then show ?case by blast
qed

text \<open>
  Claim C7: for every graph with non-negative weights whose neighbours are all keys, every
  start vertex that is a key, every pair \<open>u\<close>, \<open>v\<close> and every \<open>k \<ge> 0\<close>, the call returns a
  table on the graph and on the graph in which the weight of the edge from \<open>u\<close> to \<open>v\<close> is
  increased by \<open>k\<close>, and at no vertex is the entry of the second table below the entry of
  the first.
\<close>

theorem weight_increase_monotone:
  assumes "nonneg_weights g" and "neighbors_are_keys g" and "start \<in> vertices g" and "0 \<le> k"
  shows "\<exists>t t'. dijkstra_with_heap g start = Inr t \<and>
           dijkstra_with_heap (increase_weight u v k g) start = Inr t' \<and>
           (\<forall>x \<in> vertices g. \<exists>a b. t x = Some a \<and> t' x = Some b \<and> dist_le a b)"
proof -
  let ?g' = "increase_weight u v k g"
  have nn': "nonneg_weights ?g'" using assms(1,4) by (rule nonneg_increase_weight)
  have nk': "neighbors_are_keys ?g'" using assms(2) by (rule keys_increase_weight)
  have s': "start \<in> vertices ?g'" using assms(3) by (simp add: vertices_increase_weight)
  from dijkstra_run_succeeds [OF assms(3,2)] obtain st where st: "dijkstra_run g start = Inr st" ..
  from dijkstra_run_succeeds [OF s' nk'] obtain st' where st': "dijkstra_run ?g' start = Inr st'" ..
  from dijkstra_run_table_inv(1) [OF st] assms(3) have dm: "dom (distances st) = vertices g"
    by (simp add: table_inv_def insert_absorb)
  from dijkstra_run_table_inv(1) [OF st'] s' have dm': "dom (distances st') = vertices g"
    by (simp add: table_inv_def insert_absorb vertices_increase_weight)
  have "\<exists>a b. distances st x = Some a \<and> distances st' x = Some b \<and> dist_le a b"
    if x: "x \<in> vertices g" for x
  proof -
    from x dm dm' obtain a b where a: "distances st x = Some a" and b: "distances st' x = Some b"
      by blast
    have "dist_le a b"
    proof (cases b)
      case Infinity
      then show ?thesis by (cases a) simp_all
    next
      case (Fin kb)
      with b final_table(2) [OF nn' st'] have "is_shortest ?g' start x kb" by blast
      then obtain p' where p': "is_path ?g' start p' x" "weight p' = kb"
        by (auto simp: is_shortest_def)
      from path_increase_weight [OF assms(4) p'(1)] p'(2) obtain p where
        p: "is_path g start p x" "weight p \<le> kb" by auto
      from final_table(1) [OF assms(1) st p(1)] obtain d where
        d: "distances st x = Some (Fin d)" "is_shortest g start x d" by blast
      from d(2) p have "d \<le> kb" by (auto simp: is_shortest_def)
      with a d(1) Fin show ?thesis by auto
    qed
    with a b show ?thesis by blast
  qed
  with st st' show ?thesis by (simp add: dijkstra_with_heap_def)
qed

theorem weight_increase_monotone_witness:
  "nonneg_weights create_sample_graph \<and> neighbors_are_keys create_sample_graph \<and> ''A'' \<in> vertices create_sample_graph \<and>
   (0::int) \<le> 100 \<and>
   (\<exists>t t'. dijkstra_with_heap create_sample_graph ''A'' = Inr t \<and>
      dijkstra_with_heap (increase_weight ''A'' ''B'' 100 create_sample_graph) ''A'' = Inr t' \<and>
      (\<forall>x \<in> vertices create_sample_graph. \<exists>a b. t x = Some a \<and> t' x = Some b \<and> dist_le a b) \<and>
      t ''B'' = Some (Fin 5) \<and> t' ''B'' = Some (Fin 15))"
proof -
  have n: "nonneg_weights create_sample_graph" by (simp add: nonneg_weights_def create_sample_graph_def)
  have k: "neighbors_are_keys create_sample_graph"
    by (simp add: neighbors_are_keys_def vertices_def create_sample_graph_def)
  have v: "''A'' \<in> vertices create_sample_graph" by (simp add: vertices_def create_sample_graph_def)
  have z: "(0::int) \<le> 100" by simp
  from weight_increase_monotone [OF n k v z, of "''A''" "''B''"] obtain t t' where
    t: "dijkstra_with_heap create_sample_graph ''A'' = Inr t"
      "dijkstra_with_heap (increase_weight ''A'' ''B'' 100 create_sample_graph) ''A'' = Inr t'"
      "\<forall>x \<in> vertices create_sample_graph. \<exists>a b. t x = Some a \<and> t' x = Some b \<and> dist_le a b"
    by blast
  have "case dijkstra_with_heap create_sample_graph ''A'' of Inl e \<Rightarrow> False | Inr t \<Rightarrow> t ''B'' = Some (Fin 5)"
    by code_simp
  with t(1) have b: "t ''B'' = Some (Fin 5)" by simp
  have "case dijkstra_with_heap (increase_weight ''A'' ''B'' 100 create_sample_graph) ''A'' of
          Inl e \<Rightarrow> False | Inr t \<Rightarrow> t ''B'' = Some (Fin 15)"
    by code_simp
  with t(2) have b': "t' ''B'' = Some (Fin 15)" by simp
  from n k v z t b b' show ?thesis by blast
qed

end
